theory Spec2Isabelle
  imports Complex_Main "HOL-Library.Multiset" "HOL-Library.Log_Nat"
begin

section \<open>Collapse/expand utilities (src/lib/collapseAnimation.js)\<close>

subsection \<open>Double arithmetic\<close>

text \<open>
  The easing function is modelled in IEEE 754 double arithmetic: a number is a real that is
  a double, and every arithmetic operation rounds its exact result to the nearest double.
  Infinities, \<open>NaN\<close> and the sign of zero are outside the model; no operation below
  overflows on arguments in \<open>[0,1]\<close>.
\<close>

text \<open>The power \<open>2\<^sup>e\<close> for an integer \<open>e\<close>.\<close>

definition pow2 :: "int \<Rightarrow> real" where
  "pow2 e = (if 0 \<le> e then 2 ^ nat e else 1 / 2 ^ nat (- e))"

text \<open>
  The finite doubles are the numbers \<open>m * 2\<^sup>e\<close> with a significand \<open>\<bar>m\<bar> < 2\<^sup>5\<^sup>3\<close>, an exponent
  \<open>e \<ge> -1074\<close> and a magnitude below \<open>2\<^sup>1\<^sup>0\<^sup>2\<^sup>4\<close>; \<open>dyadic53\<close> is the same set without the
  bound on the magnitude.
\<close>

definition dyadic53 :: "real set" where
  "dyadic53 = {x. \<exists>m e. \<bar>m\<bar> < 2 ^ 53 \<and> - 1074 \<le> e \<and> x = real_of_int m * pow2 e}"

definition doubles :: "real set" where
  "doubles = {x \<in> dyadic53. \<bar>x\<bar> < 2 ^ 1024}"

text \<open>
  For \<open>x \<noteq> 0\<close>, the integer \<open>N\<close> with \<open>2\<^sup>N\<^sup>-\<^sup>1 \<le> \<bar>x\<bar> < 2\<^sup>N\<close>, from the bit length of the integer
  part of \<open>\<bar>x\<bar>\<close> or of its reciprocal.
\<close>

definition binade :: "real \<Rightarrow> int" where
  "binade x =
     (if 1 \<le> \<bar>x\<bar> then bitlen \<lfloor>\<bar>x\<bar>\<rfloor> else 1 - bitlen (\<lceil>1 / \<bar>x\<bar>\<rceil> - 1))"

text \<open>Rounding to the nearest integer, a tie to the even one.\<close>

definition round_half_even :: "real \<Rightarrow> int" where
  "round_half_even y =
     (let f = \<lfloor>y\<rfloor> in
      if y - of_int f < 1 / 2 then f
      else if 1 / 2 < y - of_int f then f + 1
      else if even f then f else f + 1)"

text \<open>
  The spacing of the doubles around \<open>x\<close>: \<open>2\<^sup>N\<^sup>-\<^sup>5\<^sup>3\<close> in the binade of \<open>x\<close>, and \<open>2\<^sup>-\<^sup>1\<^sup>0\<^sup>7\<^sup>4\<close>
  among the subnormals.
\<close>

definition ulp_of :: "real \<Rightarrow> real" where
  "ulp_of x = pow2 (max (binade x - 53) (- 1074))"

text \<open>
  \<open>fl\<close> is the rounding of IEEE 754 in its default mode: to the nearest double, a tie to
  the one with the even significand. Overflow to an infinity is not modelled.
\<close>

definition fl :: "real \<Rightarrow> real" where
  "fl x = (if x = 0 then 0 else of_int (round_half_even (x / ulp_of x)) * ulp_of x)"

subsection \<open>easeInOutCubic\<close>

text \<open>
  \<^verbatim>\<open>return t < 0.5 ? 4 * t * t * t : 1 - Math.pow(-2 * t + 2, 3) / 2;\<close>

  The constants are doubles and the comparison is exact; each product, sum, difference
  and quotient is rounded. \<open>Math.pow\<close> is a parameter: ECMAScript leaves its result
  implementation-approximated.
\<close>

definition easeInOutCubic :: "(real \<Rightarrow> real \<Rightarrow> real) \<Rightarrow> real \<Rightarrow> real" where
  "easeInOutCubic Math_pow t =
     (if t < 1 / 2 then fl (fl (fl (4 * t) * t) * t)
      else fl (1 - fl (Math_pow (fl (fl (- 2 * t) + 2)) 3 / 2)))"

text \<open>
  What is assumed of \<open>Math.pow(u, 3)\<close> for a double \<open>u\<close> of \<open>[0,1]\<close>: it is faithfully
  rounded, that is, no double lies strictly between it and the exact cube (so it is exact
  where the cube is a double), and it is monotone.
\<close>

definition faithful_cube :: "(real \<Rightarrow> real \<Rightarrow> real) \<Rightarrow> bool" where
  "faithful_cube Math_pow \<longleftrightarrow>
     (\<forall>u\<in>doubles. 0 \<le> u \<and> u \<le> 1 \<longrightarrow>
        (\<forall>d\<in>doubles. (d \<le> u ^ 3 \<longrightarrow> d \<le> Math_pow u 3) \<and>
                     (u ^ 3 \<le> d \<longrightarrow> Math_pow u 3 \<le> d)))"

definition monotone_cube :: "(real \<Rightarrow> real \<Rightarrow> real) \<Rightarrow> bool" where
  "monotone_cube Math_pow \<longleftrightarrow>
     (\<forall>u\<in>doubles. \<forall>v\<in>doubles. 0 \<le> u \<and> u \<le> v \<and> v \<le> 1 \<longrightarrow>
        Math_pow u 3 \<le> Math_pow v 3)"

text \<open>A correctly rounded power, for a natural exponent: one such \<open>Math.pow\<close>.\<close>

definition rounded_pow :: "real \<Rightarrow> real \<Rightarrow> real" where
  "rounded_pow x y = fl (x ^ nat \<lfloor>y\<rfloor>)"

subsection \<open>getDescendantIds\<close>

text \<open>
  An entry of the parent-to-children map: an object with an \<open>id\<close> and an optional
  \<open>node\<close> wrapper carrying its own \<open>id\<close>.
\<close>

record child =
  child_id :: string
  child_node :: "string option"

text \<open>\<^verbatim>\<open>const childId = child.node ? child.node.id : child.id;\<close>\<close>

definition childId :: "child \<Rightarrow> string" where
  "childId c = (case child_node c of Some nid \<Rightarrow> nid | None \<Rightarrow> child_id c)"

type_synonym children_map = "string \<rightharpoonup> child list"

text \<open>
  The \<open>while (stack.length > 0)\<close> loop. The stack is the JavaScript array as it is:
  \<open>pop\<close> removes the last element and \<open>push\<close> appends. The loop does not return on a
  cyclic map, hence the option monad: \<open>None\<close> is "never returns".
\<close>

partial_function (option) getDescendantIds_loop ::
  "children_map \<Rightarrow> string list \<Rightarrow> string list \<Rightarrow> string list option" where
  "getDescendantIds_loop m stack descendants =
     (if stack = [] then Some descendants
      else
        (case m (last stack) of
           None \<Rightarrow> getDescendantIds_loop m (butlast stack) descendants
         | Some children \<Rightarrow>
             getDescendantIds_loop m
               (butlast stack @ map childId children)
               (descendants @ map childId children)))"

definition getDescendantIds :: "string \<Rightarrow> children_map \<Rightarrow> string list option" where
  "getDescendantIds nodeId m = getDescendantIds_loop m [nodeId] []"

subsection \<open>computeCollapsedPositions\<close>

record position =
  pos_x :: real
  pos_y :: real

type_synonym rendered_map = "string \<rightharpoonup> position"

type_synonym overrides = "string \<rightharpoonup> position"

text \<open>
  The inner loop \<open>for (const id of descendantIds) overrides.set(id, {x, y})\<close>.
\<close>

fun set_overrides :: "position \<Rightarrow> string list \<Rightarrow> overrides \<Rightarrow> overrides" where
  "set_overrides anchorNode [] ov = ov"
| "set_overrides anchorNode (i # ids) ov =
     set_overrides anchorNode ids
       (ov(i \<mapsto> \<lparr>pos_x = pos_x anchorNode, pos_y = pos_y anchorNode\<rparr>))"

text \<open>
  The outer loop over the collapsed set. A JavaScript \<open>Set\<close> iterates in insertion
  order, so the set is the list of its elements in that order.
\<close>

fun computeCollapsedPositions_loop ::
  "string list \<Rightarrow> children_map \<Rightarrow> rendered_map \<Rightarrow> overrides \<Rightarrow> overrides option" where
  "computeCollapsedPositions_loop [] m r ov = Some ov"
| "computeCollapsedPositions_loop (collapsedId # rest) m r ov =
     (case r collapsedId of
        None \<Rightarrow> computeCollapsedPositions_loop rest m r ov
      | Some anchorNode \<Rightarrow>
          (case getDescendantIds collapsedId m of
             None \<Rightarrow> None
           | Some descendantIds \<Rightarrow>
               computeCollapsedPositions_loop rest m r
                 (set_overrides anchorNode descendantIds ov)))"

definition computeCollapsedPositions ::
  "string list \<Rightarrow> children_map \<Rightarrow> rendered_map \<Rightarrow> overrides option" where
  "computeCollapsedPositions collapsedNodeIds m r =
     computeCollapsedPositions_loop collapsedNodeIds m r Map.empty"

text \<open>The parent-to-child edges of a map, and what "acyclic" means for it.\<close>

definition edges :: "children_map \<Rightarrow> (string \<times> string) set" where
  "edges m = {(p, c). \<exists>cs. m p = Some cs \<and> c \<in> set (map childId cs)}"

text \<open>The tree and the rendered positions of the repository's tests.\<close>

definition example_tree :: children_map where
  "example_tree = map_of
     [(''root'', [\<lparr>child_id = ''a'', child_node = Some ''a''\<rparr>,
                  \<lparr>child_id = ''b'', child_node = Some ''b''\<rparr>]),
      (''a'', [\<lparr>child_id = ''c'', child_node = Some ''c''\<rparr>,
               \<lparr>child_id = ''d'', child_node = Some ''d''\<rparr>])]"

definition example_rendered :: rendered_map where
  "example_rendered = map_of
     [(''root'', \<lparr>pos_x = 100, pos_y = 100\<rparr>),
      (''a'', \<lparr>pos_x = 200, pos_y = 200\<rparr>),
      (''b'', \<lparr>pos_x = 300, pos_y = 100\<rparr>),
      (''c'', \<lparr>pos_x = 250, pos_y = 300\<rparr>),
      (''d'', \<lparr>pos_x = 150, pos_y = 300\<rparr>)]"

definition example_rank :: "string \<Rightarrow> nat" where
  "example_rank s = (if s = ''root'' then 2 else if s = ''a'' \<or> s = ''b'' then 1 else 0)"

section \<open>Mouse and touch handlers (components/cactusTree/mouseHandlers.js)\<close>

text \<open>
  In the handlers JavaScript numbers are modelled as mathematical reals: rounding,
  infinities and \<open>NaN\<close> are outside this part of the model.
\<close>

subsection \<open>Events, state and effects\<close>

text \<open>
  A \<open>MouseEvent\<close> or a \<open>Touch\<close> as far as the handlers read it, a \<open>WheelEvent\<close>
  with its \<open>deltaY\<close>, and a \<open>TouchEvent\<close> with its \<open>touches\<close> and its optional
  \<open>changedTouches\<close>.
\<close>

record client_point =
  clientX :: real
  clientY :: real

record wheel_event = client_point +
  deltaY :: real

record touch_event =
  ev_touches :: "client_point list"
  ev_changedTouches :: "client_point list option"

text \<open>The result of \<open>canvas.getBoundingClientRect()\<close>, as far as it is read.\<close>

record rect =
  rect_left :: real
  rect_top :: real

record rendered_node =
  node_x :: real
  node_y :: real
  node_radius :: real
  node_id :: string

record leaf_entry =
  leaf_x :: real
  leaf_y :: real
  leaf_radius :: real
  leaf_nodeId :: string

type_synonym voronoi_data = "leaf_entry list"

text \<open>
  The component state the handlers share. Fields that may be absent in JavaScript are
  options: the canvas handle, the positions recorded by the last mouse down and touch
  start (\<open>state._mouseDownX\<close> and so on, \<open>undefined\<close> before the first one), the
  proximity index and the hover tolerance. \<open>onNodeClick\<close> says whether a click callback
  is registered; calling it is an effect.
\<close>

record state =
  canvas :: "rect option"
  isDragging :: bool
  pannable :: bool
  zoomable :: bool
  panX :: real
  panY :: real
  currentZoom :: real
  minZoomLimit :: real
  maxZoomLimit :: real
  lastMouseX :: real
  lastMouseY :: real
  mouseDownX :: "real option"
  mouseDownY :: "real option"
  touchStartX :: "real option"
  touchStartY :: "real option"
  touches :: "client_point list"
  lastTouchDistance :: real
  renderedNodes :: "rendered_node list"
  voronoiData :: "voronoi_data option"
  leafHoverTolerance :: "real option"
  hoveredNodeId :: "string option"
  onNodeClick :: bool

text \<open>
  What a handler does besides updating the state, in the order it does it: calls of
  \<open>scheduleRender\<close>, of the click callback, of \<open>event.preventDefault\<close>, and of the two
  imported hit tests with their point (and tolerance).
\<close>

datatype effect =
  ScheduleRender
| OnNodeClick string
| PreventDefault
| FindHoveredNode real real
| FindHoveredLeafByVoronoi real real real

datatype error = TypeError

datatype completion = Returned | Threw error

type_synonym outcome = "completion \<times> state \<times> effect list"

text \<open>
  The two hit tests are imported from \<open>drawNode.js\<close> and \<open>voronoiHover.js\<close>, which are
  not part of the sources at hand: the handlers take them as a parameter.
\<close>

record hit_tests =
  findHoveredNode :: "real \<Rightarrow> real \<Rightarrow> rendered_node list \<Rightarrow> string option"
  findHoveredLeafByVoronoi :: "real \<Rightarrow> real \<Rightarrow> voronoi_data \<Rightarrow> real \<Rightarrow> string option"

subsection \<open>Helpers\<close>

text \<open>
  \<open>getEventCoordinates\<close>: \<open>canvas.getBoundingClientRect()\<close> on a missing canvas throws a
  \<open>TypeError\<close>.
\<close>

definition getEventCoordinates ::
  "'a client_point_scheme \<Rightarrow> rect option \<Rightarrow> error + (real \<times> real)" where
  "getEventCoordinates event cv =
     (case cv of
        None \<Rightarrow> Inl TypeError
      | Some r \<Rightarrow> Inr (clientX event - rect_left r, clientY event - rect_top r))"

definition handlePanning :: "state \<Rightarrow> real \<Rightarrow> real \<Rightarrow> state \<times> effect list" where
  "handlePanning st currentX currentY =
     (if \<not> isDragging st \<or> \<not> pannable st then (st, [])
      else
        (let deltaX = currentX - lastMouseX st;
             deltaY = currentY - lastMouseY st
         in (st\<lparr>panX := panX st + deltaX, panY := panY st + deltaY,
                 lastMouseX := currentX, lastMouseY := currentY\<rparr>,
             [ScheduleRender])))"

text \<open>
  \<open>handleZoom\<close> divides by the current zoom. On a zero zoom JavaScript yields an infinity
  or \<open>NaN\<close>, which the reals do not have: what is stated about the pan below assumes a
  nonzero zoom.
\<close>

definition handleZoom ::
  "state \<Rightarrow> real \<Rightarrow> real \<Rightarrow> real \<Rightarrow> real \<Rightarrow> real \<Rightarrow> bool \<times> state \<times> effect list" where
  "handleZoom st zoomFactor centerX centerY width height =
     (if \<not> zoomable st then (False, st, [])
      else
        (let proposedZoom = currentZoom st * zoomFactor in
         if (proposedZoom > maxZoomLimit st \<and> currentZoom st \<ge> maxZoomLimit st) \<or>
            (proposedZoom < minZoomLimit st \<and> currentZoom st \<le> minZoomLimit st)
         then (False, st, [])
         else
           (let newZoom = max (minZoomLimit st) (min (maxZoomLimit st) proposedZoom);
                canvasCenterX = width / 2;
                canvasCenterY = height / 2;
                worldX = (centerX - canvasCenterX - panX st) / currentZoom st;
                worldY = (centerY - canvasCenterY - panY st) / currentZoom st
            in (True,
                st\<lparr>panX := centerX - canvasCenterX - worldX * newZoom,
                    panY := centerY - canvasCenterY - worldY * newZoom,
                    currentZoom := newZoom\<rparr>,
                [ScheduleRender]))))"

definition handleHoverDetection ::
  "hit_tests \<Rightarrow> state \<Rightarrow> real \<Rightarrow> real \<Rightarrow> state \<times> effect list" where
  "handleHoverDetection H st x y =
     (if renderedNodes st = [] then (st, [])
      else
        (let transformedX = x - panX st;
             transformedY = y - panY st;
             exact = findHoveredNode H transformedX transformedY (renderedNodes st);
             tolerance = (case leafHoverTolerance st of Some t \<Rightarrow> t | None \<Rightarrow> 15);
             (newHoveredNodeId, calls) =
               (case (exact, voronoiData st) of
                  (None, Some vd) \<Rightarrow>
                    (findHoveredLeafByVoronoi H transformedX transformedY vd tolerance,
                     [FindHoveredNode transformedX transformedY,
                      FindHoveredLeafByVoronoi transformedX transformedY tolerance])
                | _ \<Rightarrow> (exact, [FindHoveredNode transformedX transformedY]))
         in if newHoveredNodeId \<noteq> hoveredNodeId st
            then (st\<lparr>hoveredNodeId := newHoveredNodeId\<rparr>, calls @ [ScheduleRender])
            else (st, calls)))"

text \<open>
  The click detection that the mouse-up and the touch-end handler share word for word:
  from the event coordinates and the recorded down position to the hit test and the
  callback. A recorded \<open>x\<close> with an \<open>undefined\<close> \<open>y\<close> makes the sum \<open>NaN\<close>, and
  \<open>NaN < 25\<close> is false.
\<close>

definition click_detection ::
  "hit_tests \<Rightarrow> state \<Rightarrow> real \<times> real \<Rightarrow> real \<Rightarrow> real option \<Rightarrow> effect list" where
  "click_detection H st coords downX downY =
     (case downY of
        None \<Rightarrow> []
      | Some downY' \<Rightarrow>
          (let dx = fst coords - downX;
               dy = snd coords - downY'
           in if dx * dx + dy * dy < 25 then
                (let transformedX = fst coords - panX st;
                     transformedY = snd coords - panY st
                 in case findHoveredNode H transformedX transformedY (renderedNodes st) of
                      None \<Rightarrow> [FindHoveredNode transformedX transformedY]
                    | Some clickedNodeId \<Rightarrow>
                        [FindHoveredNode transformedX transformedY, OnNodeClick clickedNodeId])
              else []))"

subsection \<open>Mouse handlers\<close>

definition handleMouseMove ::
  "hit_tests \<Rightarrow> real \<Rightarrow> real \<Rightarrow> state \<Rightarrow> client_point \<Rightarrow> outcome" where
  "handleMouseMove H width height st event =
     (if canvas st = None then (Returned, st, [])
      else
        (case getEventCoordinates event (canvas st) of
           Inl e \<Rightarrow> (Threw e, st, [])
         | Inr (x, y) \<Rightarrow>
             (let (st1, es1) = handlePanning st x y;
                  st2 = st1\<lparr>lastMouseX := x, lastMouseY := y\<rparr>
              in if \<not> isDragging st2
                 then (let (st3, es3) = handleHoverDetection H st2 x y
                       in (Returned, st3, es1 @ es3))
                 else (Returned, st2, es1))))"

definition handleMouseDown :: "state \<Rightarrow> client_point \<Rightarrow> outcome" where
  "handleMouseDown st event =
     (case getEventCoordinates event (canvas st) of
        Inl e \<Rightarrow> (Threw e, st, [])
      | Inr (x, y) \<Rightarrow>
          (let st1 = st\<lparr>mouseDownX := Some x, mouseDownY := Some y\<rparr>
           in if \<not> pannable st1 then (Returned, st1, [])
              else (Returned,
                    st1\<lparr>isDragging := True, lastMouseX := x, lastMouseY := y\<rparr>,
                    [PreventDefault])))"

definition handleMouseUp :: "hit_tests \<Rightarrow> state \<Rightarrow> client_point \<Rightarrow> outcome" where
  "handleMouseUp H st event =
     (let st1 = st\<lparr>isDragging := False\<rparr>
      in case mouseDownX st1 of
           None \<Rightarrow> (Returned, st1, [])
         | Some downX \<Rightarrow>
             if canvas st1 \<noteq> None \<and> onNodeClick st1 then
               (case getEventCoordinates event (canvas st1) of
                  Inl e \<Rightarrow> (Threw e, st1, [])
                | Inr coords \<Rightarrow>
                    (Returned, st1, click_detection H st1 coords downX (mouseDownY st1)))
             else (Returned, st1, []))"

definition handleMouseLeave :: "state \<Rightarrow> outcome" where
  "handleMouseLeave st =
     (let st1 = st\<lparr>isDragging := False\<rparr>
      in if hoveredNodeId st1 \<noteq> None
         then (Returned, st1\<lparr>hoveredNodeId := None\<rparr>, [ScheduleRender])
         else (Returned, st1, []))"

definition handleWheel :: "real \<Rightarrow> real \<Rightarrow> state \<Rightarrow> wheel_event \<Rightarrow> outcome" where
  "handleWheel width height st event =
     (if canvas st = None then (Returned, st, [])
      else
        (case getEventCoordinates event (canvas st) of
           Inl e \<Rightarrow> (Threw e, st, [PreventDefault])
         | Inr (x, y) \<Rightarrow>
             (let zoomFactor = (if deltaY event > 0 then 9 / 10 else 11 / 10);
                  (applied, st1, es) = handleZoom st zoomFactor x y width height
              in (Returned, st1, PreventDefault # es))))"

subsection \<open>Touch handlers\<close>

definition touch_distance :: "real \<times> real \<Rightarrow> real \<times> real \<Rightarrow> real" where
  "touch_distance touch1 touch2 =
     sqrt ((fst touch2 - fst touch1) ^ 2 + (snd touch2 - snd touch1) ^ 2)"

definition handleTouchStart :: "hit_tests \<Rightarrow> state \<Rightarrow> touch_event \<Rightarrow> outcome" where
  "handleTouchStart H st event =
     (let st1 = st\<lparr>touches := ev_touches event\<rparr>
      in case ev_touches event of
           [t] \<Rightarrow>
             (case getEventCoordinates t (canvas st1) of
                Inl e \<Rightarrow> (Threw e, st1, [PreventDefault])
              | Inr (x, y) \<Rightarrow>
                  (let st2 = st1\<lparr>touchStartX := Some x, touchStartY := Some y\<rparr>;
                       st3 = (if pannable st2
                              then st2\<lparr>isDragging := True, lastMouseX := x, lastMouseY := y\<rparr>
                              else st2);
                       (st4, es) = handleHoverDetection H st3 x y
                   in (Returned, st4, PreventDefault # es)))
         | [t1, t2] \<Rightarrow>
             if zoomable st1 then
               (case getEventCoordinates t1 (canvas st1) of
                  Inl e \<Rightarrow> (Threw e, st1, [PreventDefault])
                | Inr touch1 \<Rightarrow>
                    (case getEventCoordinates t2 (canvas st1) of
                       Inl e \<Rightarrow> (Threw e, st1, [PreventDefault])
                     | Inr touch2 \<Rightarrow>
                         (Returned,
                          st1\<lparr>lastTouchDistance := touch_distance touch1 touch2\<rparr>,
                          [PreventDefault])))
             else (Returned, st1, [PreventDefault])
         | _ \<Rightarrow> (Returned, st1, [PreventDefault]))"

text \<open>The two-touch branch of the touch-move handler.\<close>

definition pinch_zoom ::
  "real \<Rightarrow> real \<Rightarrow> state \<Rightarrow> client_point \<Rightarrow> client_point \<Rightarrow> outcome" where
  "pinch_zoom width height st t1 t2 =
     (case getEventCoordinates t1 (canvas st) of
        Inl e \<Rightarrow> (Threw e, st, [PreventDefault])
      | Inr touch1 \<Rightarrow>
          (case getEventCoordinates t2 (canvas st) of
             Inl e \<Rightarrow> (Threw e, st, [PreventDefault])
           | Inr touch2 \<Rightarrow>
               (let currentDistance = touch_distance touch1 touch2;
                    (st1, es) =
                      (if lastTouchDistance st > 0 then
                         (let zoomFactor = currentDistance / lastTouchDistance st;
                              centerX = (fst touch1 + fst touch2) / 2;
                              centerY = (snd touch1 + snd touch2) / 2;
                              (applied, st', es') =
                                handleZoom st zoomFactor centerX centerY width height
                          in (st', es'))
                       else (st, []))
                in (Returned, st1\<lparr>lastTouchDistance := currentDistance\<rparr>,
                    PreventDefault # es))))"

definition handleTouchMove :: "real \<Rightarrow> real \<Rightarrow> state \<Rightarrow> touch_event \<Rightarrow> outcome" where
  "handleTouchMove width height st event =
     (case ev_touches event of
        [t] \<Rightarrow>
          if isDragging st \<and> pannable st then
            (case getEventCoordinates t (canvas st) of
               Inl e \<Rightarrow> (Threw e, st, [PreventDefault])
             | Inr (x, y) \<Rightarrow>
                 (let (st1, es) = handlePanning st x y
                  in (Returned, st1, PreventDefault # es)))
          else (Returned, st, [PreventDefault])
      | [t1, t2] \<Rightarrow>
          if zoomable st then pinch_zoom width height st t1 t2
          else (Returned, st, [PreventDefault])
      | _ \<Rightarrow> (Returned, st, [PreventDefault]))"

definition handleTouchEnd :: "hit_tests \<Rightarrow> state \<Rightarrow> touch_event \<Rightarrow> outcome" where
  "handleTouchEnd H st event =
     (let changedTouches = (case ev_changedTouches event of Some cs \<Rightarrow> cs | None \<Rightarrow> []);
          st1 = st\<lparr>touches := ev_touches event\<rparr>
      in case ev_touches event of
           [] \<Rightarrow>
             (let st2 = st1\<lparr>isDragging := False, lastTouchDistance := 0\<rparr>
              in case (changedTouches, touchStartX st2) of
                   ([t], Some startX) \<Rightarrow>
                     if onNodeClick st2 then
                       (case getEventCoordinates t (canvas st2) of
                          Inl e \<Rightarrow> (Threw e, st2, [PreventDefault])
                        | Inr coords \<Rightarrow>
                            (Returned, st2,
                             PreventDefault #
                               click_detection H st2 coords startX (touchStartY st2)))
                     else (Returned, st2, [PreventDefault])
                 | _ \<Rightarrow> (Returned, st2, [PreventDefault]))
         | [t] \<Rightarrow>
             (let st2 = st1\<lparr>lastTouchDistance := 0\<rparr>
              in if pannable st2 then
                   (case getEventCoordinates t (canvas st2) of
                      Inl e \<Rightarrow> (Threw e, st2, [PreventDefault])
                    | Inr (x, y) \<Rightarrow>
                        (Returned,
                         st2\<lparr>lastMouseX := x, lastMouseY := y, isDragging := True\<rparr>,
                         [PreventDefault]))
                 else (Returned, st2, [PreventDefault]))
         | _ \<Rightarrow> (Returned, st1, [PreventDefault]))"

subsection \<open>The handler table and event sequences\<close>

datatype event =
  MouseMove client_point
| MouseDown client_point
| MouseUp client_point
| MouseLeave
| Wheel wheel_event
| TouchStart touch_event
| TouchMove touch_event
| TouchEnd touch_event

text \<open>\<open>createMouseHandlers\<close>: one handler per kind of event.\<close>

fun createMouseHandlers :: "hit_tests \<Rightarrow> real \<Rightarrow> real \<Rightarrow> state \<Rightarrow> event \<Rightarrow> outcome" where
  "createMouseHandlers H width height st (MouseMove e) = handleMouseMove H width height st e"
| "createMouseHandlers H width height st (MouseDown e) = handleMouseDown st e"
| "createMouseHandlers H width height st (MouseUp e) = handleMouseUp H st e"
| "createMouseHandlers H width height st MouseLeave = handleMouseLeave st"
| "createMouseHandlers H width height st (Wheel e) = handleWheel width height st e"
| "createMouseHandlers H width height st (TouchStart e) = handleTouchStart H st e"
| "createMouseHandlers H width height st (TouchMove e) = handleTouchMove width height st e"
| "createMouseHandlers H width height st (TouchEnd e) = handleTouchEnd H st e"

text \<open>
  The events of a queue handled one after the other. A handler that throws leaves the
  state as it was at the throw, and the next event is handled from there.
\<close>

fun run_events ::
  "hit_tests \<Rightarrow> real \<Rightarrow> real \<Rightarrow> state \<Rightarrow> event list \<Rightarrow> state \<times> effect list" where
  "run_events H width height st [] = (st, [])"
| "run_events H width height st (ev # evs) =
     (case createMouseHandlers H width height st ev of
        (c, st1, es1) \<Rightarrow>
          (case run_events H width height st1 evs of
             (st2, es2) \<Rightarrow> (st2, es1 @ es2)))"

subsection \<open>Hit tests and a state for concrete runs\<close>

text \<open>
  Modelled from the spec: \<open>findHoveredNode\<close> of \<open>drawNode.js\<close>, which is missing from the
  sources. Section 4.2: the id of the node whose circle contains the point, by an exact
  point-in-circle distance comparison; among overlapping nodes the last in draw order.
\<close>

fun findHoveredNode_spec :: "real \<Rightarrow> real \<Rightarrow> rendered_node list \<Rightarrow> string option" where
  "findHoveredNode_spec px py [] = None"
| "findHoveredNode_spec px py (n # ns) =
     (case findHoveredNode_spec px py ns of
        Some i \<Rightarrow> Some i
      | None \<Rightarrow>
          if (px - node_x n) ^ 2 + (py - node_y n) ^ 2 \<le> (node_radius n) ^ 2
          then Some (node_id n) else None)"

text \<open>
  Modelled from the spec: \<open>findHoveredLeafByVoronoi\<close> of \<open>voronoiHover.js\<close>, which is
  missing from the sources. Section 4.2: the nearest leaf entry, accepted only if its
  distance to the point is at most its radius plus the tolerance. The distances are
  compared through their squares.
\<close>

definition leaf_dist2 :: "real \<Rightarrow> real \<Rightarrow> leaf_entry \<Rightarrow> real" where
  "leaf_dist2 px py e = (px - leaf_x e) ^ 2 + (py - leaf_y e) ^ 2"

fun nearest_leaf :: "real \<Rightarrow> real \<Rightarrow> leaf_entry list \<Rightarrow> leaf_entry option" where
  "nearest_leaf px py [] = None"
| "nearest_leaf px py (e # es) =
     (case nearest_leaf px py es of
        None \<Rightarrow> Some e
      | Some b \<Rightarrow> if leaf_dist2 px py e \<le> leaf_dist2 px py b then Some e else Some b)"

definition findHoveredLeafByVoronoi_spec ::
  "real \<Rightarrow> real \<Rightarrow> voronoi_data \<Rightarrow> real \<Rightarrow> string option" where
  "findHoveredLeafByVoronoi_spec px py vd tolerance =
     (case nearest_leaf px py vd of
        None \<Rightarrow> None
      | Some e \<Rightarrow>
          if leaf_dist2 px py e \<le> (leaf_radius e + tolerance) ^ 2 \<and> 0 \<le> leaf_radius e + tolerance
          then Some (leaf_nodeId e) else None)"

definition spec_hit_tests :: hit_tests where
  "spec_hit_tests =
     \<lparr>findHoveredNode = findHoveredNode_spec,
      findHoveredLeafByVoronoi = findHoveredLeafByVoronoi_spec\<rparr>"

text \<open>
  The composite resolution order in the words of the spec: the exact hit first; if it is
  null and a proximity index exists, the approximate leaf hit; otherwise no node.
\<close>

definition composite_resolution :: "hit_tests \<Rightarrow> state \<Rightarrow> real \<Rightarrow> real \<Rightarrow> string option" where
  "composite_resolution H st px py =
     (case findHoveredNode H px py (renderedNodes st) of
        Some n \<Rightarrow> Some n
      | None \<Rightarrow>
          (case voronoiData st of
             None \<Rightarrow> None
           | Some vd \<Rightarrow>
               findHoveredLeafByVoronoi H px py vd
                 (case leafHoverTolerance st of Some t \<Rightarrow> t | None \<Rightarrow> 15)))"

text \<open>
  A state over the nodes of the repository's proximity tests: a root and two leaves, the
  canvas at the origin of the page, panning and zooming enabled, a click callback
  registered.
\<close>

definition example_state :: state where
  "example_state =
     \<lparr>canvas = Some \<lparr>rect_left = 0, rect_top = 0\<rparr>,
      isDragging = False, pannable = True, zoomable = True,
      panX = 0, panY = 0, currentZoom = 1, minZoomLimit = 1 / 2, maxZoomLimit = 5,
      lastMouseX = 0, lastMouseY = 0,
      mouseDownX = None, mouseDownY = None, touchStartX = None, touchStartY = None,
      touches = [], lastTouchDistance = 0,
      renderedNodes =
        [\<lparr>node_x = 0, node_y = 0, node_radius = 10, node_id = ''root''\<rparr>,
         \<lparr>node_x = 100, node_y = 100, node_radius = 5, node_id = ''leafA''\<rparr>,
         \<lparr>node_x = 300, node_y = 300, node_radius = 8, node_id = ''leafB''\<rparr>],
      voronoiData =
        Some [\<lparr>leaf_x = 100, leaf_y = 100, leaf_radius = 5, leaf_nodeId = ''leafA''\<rparr>,
              \<lparr>leaf_x = 300, leaf_y = 300, leaf_radius = 8, leaf_nodeId = ''leafB''\<rparr>],
      leafHoverTolerance = None, hoveredNodeId = None, onNodeClick = True\<rparr>"

definition mouse_at :: "real \<Rightarrow> real \<Rightarrow> client_point" where
  "mouse_at px py = \<lparr>clientX = px, clientY = py\<rparr>"

definition wheel_at :: "real \<Rightarrow> real \<Rightarrow> real \<Rightarrow> wheel_event" where
  "wheel_at px py dy = \<lparr>clientX = px, clientY = py, deltaY = dy\<rparr>"

subsection \<open>Notions used in the statements, and concrete inputs\<close>

text \<open>What one handler call may do to the zoom factor and its limits.\<close>

definition zoom_step :: "real \<Rightarrow> real \<Rightarrow> state \<Rightarrow> state \<Rightarrow> bool" where
  "zoom_step w h st st' \<longleftrightarrow>
     minZoomLimit st' = minZoomLimit st \<and> maxZoomLimit st' = maxZoomLimit st \<and>
     (currentZoom st' = currentZoom st \<or>
      (\<exists>zf cx cy s es. handleZoom st zf cx cy w h = (True, s, es) \<and>
         currentZoom st' = currentZoom s))"

text \<open>The equations of the zoom-to-point rule, between the state before and after.\<close>

definition focal_point_fixed :: "real \<Rightarrow> real \<Rightarrow> real \<Rightarrow> real \<Rightarrow> state \<Rightarrow> state \<Rightarrow> bool" where
  "focal_point_fixed cx cy w h st st' \<longleftrightarrow>
     cx - w / 2 - panX st' = (cx - w / 2 - panX st) / currentZoom st * currentZoom st' \<and>
     cy - h / 2 - panY st' = (cy - h / 2 - panY st) / currentZoom st * currentZoom st'"

text \<open>Concrete zoom gestures on the example state.\<close>

definition pinch_at :: "real \<Rightarrow> real \<Rightarrow> real \<Rightarrow> touch_event" where
  "pinch_at x1 x2 y =
     \<lparr>ev_touches = [mouse_at x1 y, mouse_at x2 y], ev_changedTouches = None\<rparr>"

definition example_events :: "event list" where
  "example_events =
     [MouseDown (mouse_at 10 10), MouseMove (mouse_at 30 40),
      Wheel (wheel_at 500 400 (- 1)), Wheel (wheel_at 500 400 (- 1)),
      MouseUp (mouse_at 30 40)]"

text \<open>The fields that the click detection reads and no move handler writes.\<close>

definition click_fields ::
  "state \<Rightarrow> rect option \<times> bool \<times> rendered_node list \<times>
     real option \<times> real option \<times> real option \<times> real option" where
  "click_fields st =
     (canvas st, onNodeClick st, renderedNodes st,
      mouseDownX st, mouseDownY st, touchStartX st, touchStartY st)"

text \<open>A touch event with the given touches, and one that ends the last touch.\<close>

definition touch_with :: "client_point list \<Rightarrow> touch_event" where
  "touch_with ts = \<lparr>ev_touches = ts, ev_changedTouches = None\<rparr>"

definition touch_lifted :: "client_point \<Rightarrow> touch_event" where
  "touch_lifted t = \<lparr>ev_touches = [], ev_changedTouches = Some [t]\<rparr>"

text \<open>
  The state after a mouse down and the mouse moves that follow it, and after a one-finger
  touch start and the touch moves that follow it.
\<close>

definition mouse_press ::
  "hit_tests \<Rightarrow> real \<Rightarrow> real \<Rightarrow> state \<Rightarrow> client_point \<Rightarrow> client_point list \<Rightarrow> state" where
  "mouse_press H w h st down moves =
     fst (run_events H w h st (MouseDown down # map MouseMove moves))"

definition touch_press ::
  "hit_tests \<Rightarrow> real \<Rightarrow> real \<Rightarrow> state \<Rightarrow> client_point \<Rightarrow> touch_event list \<Rightarrow> state" where
  "touch_press H w h st down moves =
     fst (run_events H w h st (TouchStart (touch_with [down]) # map TouchMove moves))"

text \<open>
  The example state after a mouse down at \<open>(100, 100)\<close> and a move to \<open>(102, 101)\<close>, which
  drags the pan along, and after a touch start at \<open>(100, 100)\<close>, which hovers \<open>leafA\<close>.
\<close>

definition example_pressed :: state where
  "example_pressed =
     example_state\<lparr>isDragging := True, panX := 2, panY := 1,
       lastMouseX := 102, lastMouseY := 101,
       mouseDownX := Some 100, mouseDownY := Some 100\<rparr>"

definition example_touched :: state where
  "example_touched =
     example_state\<lparr>isDragging := True, lastMouseX := 100, lastMouseY := 100,
       touchStartX := Some 100, touchStartY := Some 100,
       touches := [mouse_at 100 100], hoveredNodeId := Some ''leafA''\<rparr>"

text \<open>
  The example state without a click callback, after a mouse down at \<open>(100, 100)\<close> and
  after a touch start at \<open>(100, 100)\<close>, and the example state after a mouse down at
  \<open>(110, 100)\<close>, which is outside every circle and within the hover tolerance of \<open>leafA\<close>.
\<close>

definition example_no_callback :: state where
  "example_no_callback =
     example_state\<lparr>onNodeClick := False, isDragging := True,
       lastMouseX := 100, lastMouseY := 100,
       mouseDownX := Some 100, mouseDownY := Some 100\<rparr>"

definition example_touched_no_callback :: state where
  "example_touched_no_callback = example_touched\<lparr>onNodeClick := False\<rparr>"

definition example_near_leaf :: state where
  "example_near_leaf =
     example_state\<lparr>isDragging := True, lastMouseX := 110, lastMouseY := 100,
       mouseDownX := Some 110, mouseDownY := Some 100\<rparr>"

text \<open>The example state without its canvas.\<close>

definition example_no_canvas :: state where
  "example_no_canvas = example_state\<lparr>canvas := None\<rparr>"

section \<open>Properties of the collapse utilities\<close>

subsection \<open>The traversal returns on finite acyclic maps\<close>

lemma edges_image: "edges m `` {p} = (case m p of None \<Rightarrow> {} | Some cs \<Rightarrow> set (map childId cs))"
  by (auto simp: edges_def split: option.splits)

lemma trancl_image_step: "r\<^sup>+ `` S = r `` S \<union> r\<^sup>+ `` (r `` S)"
proof
  show "r\<^sup>+ `` S \<subseteq> r `` S \<union> r\<^sup>+ `` (r `` S)"
  proof
    fix y assume "y \<in> r\<^sup>+ `` S"
    then obtain x where x: "x \<in> S" "(x, y) \<in> r\<^sup>+" by blast
    from x(2) show "y \<in> r `` S \<union> r\<^sup>+ `` (r `` S)"
      using x(1) by (cases rule: converse_tranclE) blast+
  qed
next
  show "r `` S \<union> r\<^sup>+ `` (r `` S) \<subseteq> r\<^sup>+ `` S"
    by (auto intro: trancl_into_trancl2)
qed

lemma getDescendantIds_loop_total:
  assumes wf: "wf ((edges m)\<inverse>)"
  shows "\<exists>ds. getDescendantIds_loop m stack desc = Some ds \<and>
           set ds = set desc \<union> (edges m)\<^sup>+ `` set stack"
proof -
  have "wf (mult ((edges m)\<inverse>))" using wf by (rule wf_mult)
  then show ?thesis
  proof (induction "mset stack" arbitrary: stack desc rule: wf_induct_rule)
    case less
    show ?case
    proof (cases "stack = []")
      case True
      then show ?thesis by (simp add: getDescendantIds_loop.simps)
    next
      case False
      then obtain rest cur where st: "stack = rest @ [cur]"
        by (metis rev_exhaust)
      have unfold: "(edges m)\<^sup>+ `` set stack =
          (edges m)\<^sup>+ `` set rest \<union> (edges m `` {cur} \<union> (edges m)\<^sup>+ `` (edges m `` {cur}))"
        using trancl_image_step [of "edges m" "{cur}"] by (auto simp: st)
      show ?thesis
      proof (cases "m cur")
        case None
        have "(mset rest + {#}, mset rest + {#cur#}) \<in> mult ((edges m)\<inverse>)"
          by (rule one_step_implies_mult) simp_all
        then have "(mset rest, mset stack) \<in> mult ((edges m)\<inverse>)" by (simp add: st)
        from less [OF this, of desc] obtain ds where
          ds: "getDescendantIds_loop m rest desc = Some ds"
              "set ds = set desc \<union> (edges m)\<^sup>+ `` set rest" by blast
        have "getDescendantIds_loop m stack desc = Some ds"
          using ds(1) None by (subst getDescendantIds_loop.simps) (simp add: st)
        moreover have "edges m `` {cur} = {}" using None by (simp add: edges_image)
        ultimately show ?thesis using ds(2) unfold by simp
      next
        case (Some children)
        let ?ids = "map childId children"
        have img: "edges m `` {cur} = set ?ids" using Some by (simp add: edges_image)
        have "(mset rest + mset ?ids, mset rest + {#cur#}) \<in> mult ((edges m)\<inverse>)"
        proof (rule one_step_implies_mult)
          show "{#cur#} \<noteq> {#}" by simp
          show "\<forall>k\<in>#mset ?ids. \<exists>j\<in>#{#cur#}. (k, j) \<in> (edges m)\<inverse>"
            using img by auto
        qed
        then have "(mset (rest @ ?ids), mset stack) \<in> mult ((edges m)\<inverse>)"
          by (simp add: st)
        from less [OF this, of "desc @ ?ids"] obtain ds where
          ds: "getDescendantIds_loop m (rest @ ?ids) (desc @ ?ids) = Some ds"
              "set ds = set (desc @ ?ids) \<union> (edges m)\<^sup>+ `` set (rest @ ?ids)" by blast
        have "getDescendantIds_loop m stack desc = Some ds"
          using ds(1) Some by (subst getDescendantIds_loop.simps) (simp add: st)
        moreover have "set ds = set desc \<union> (edges m)\<^sup>+ `` set stack"
          unfolding unfold ds(2) img by auto
        ultimately show ?thesis by simp
      qed
    qed
  qed
qed

lemma finite_edges: "finite (dom m) \<Longrightarrow> finite (edges m)"
proof -
  assume fin: "finite (dom m)"
  have "edges m = (\<Union>p\<in>dom m. {p} \<times> (edges m `` {p}))"
    by (auto simp: edges_def)
  moreover have "finite (\<Union>p\<in>dom m. {p} \<times> (edges m `` {p}))"
    using fin by (auto simp: edges_image split: option.splits)
  ultimately show ?thesis by simp
qed

text \<open>Guarded unfoldings of the loop, for evaluating it on concrete maps.\<close>

lemma getDescendantIds_loop_empty: "getDescendantIds_loop m [] ds = Some ds"
  by (subst getDescendantIds_loop.simps) simp

lemma getDescendantIds_loop_leaf:
  "stack \<noteq> [] \<Longrightarrow> m (last stack) = None \<Longrightarrow>
   getDescendantIds_loop m stack ds = getDescendantIds_loop m (butlast stack) ds"
  by (subst getDescendantIds_loop.simps) simp

lemma getDescendantIds_loop_inner:
  "stack \<noteq> [] \<Longrightarrow> m (last stack) = Some children \<Longrightarrow>
   getDescendantIds_loop m stack ds =
     getDescendantIds_loop m (butlast stack @ map childId children) (ds @ map childId children)"
  by (subst getDescendantIds_loop.simps) simp

lemmas getDescendantIds_loop_eval =
  getDescendantIds_loop_empty getDescendantIds_loop_leaf getDescendantIds_loop_inner

subsection \<open>Overrides\<close>

lemma getDescendantIds_total:
  assumes "finite (dom m)" "acyclic (edges m)"
  shows "\<exists>ds. getDescendantIds nodeId m = Some ds \<and> set ds = (edges m)\<^sup>+ `` {nodeId}"
proof -
  have "wf ((edges m)\<inverse>)"
    using assms by (intro finite_acyclic_wf_converse finite_edges)
  from getDescendantIds_loop_total [OF this, of "[nodeId]" "[]"]
  show ?thesis by (simp add: getDescendantIds_def)
qed

lemma set_overrides_apply:
  "set_overrides a ids ov d =
     (if d \<in> set ids then Some \<lparr>pos_x = pos_x a, pos_y = pos_y a\<rparr> else ov d)"
  by (induction ids arbitrary: ov) auto

lemma set_overrides_dom: "dom (set_overrides a ids ov) = dom ov \<union> set ids"
  by (auto simp: dom_def set_overrides_apply)

lemma computeCollapsedPositions_loop_append:
  "computeCollapsedPositions_loop (xs @ ys) m r ov =
     (case computeCollapsedPositions_loop xs m r ov of
        None \<Rightarrow> None
      | Some ov' \<Rightarrow> computeCollapsedPositions_loop ys m r ov')"
  by (induction xs arbitrary: ov) (auto split: option.splits)

lemma computeCollapsedPositions_loop_total:
  assumes "finite (dom m)" "acyclic (edges m)"
  shows "\<exists>ov'. computeCollapsedPositions_loop cs m r ov = Some ov'"
proof (induction cs arbitrary: ov)
  case Nil
  show ?case by simp
next
  case (Cons c cs)
  obtain ds where "getDescendantIds c m = Some ds"
    using getDescendantIds_total [OF assms] by blast
  then show ?case using Cons by (cases "r c") auto
qed

lemma computeCollapsedPositions_loop_untouched:
  assumes "computeCollapsedPositions_loop cs m r ov = Some ov'"
    and "\<forall>c\<in>set cs. \<forall>ds. r c \<noteq> None \<longrightarrow> getDescendantIds c m = Some ds \<longrightarrow> d \<notin> set ds"
  shows "ov' d = ov d"
  using assms
proof (induction cs arbitrary: ov)
  case Nil
  then show ?case by simp
next
  case (Cons c cs)
  show ?case
  proof (cases "r c")
    case None
    then show ?thesis using Cons by simp
  next
    case (Some a)
    then obtain ds where ds: "getDescendantIds c m = Some ds"
      and rest: "computeCollapsedPositions_loop cs m r (set_overrides a ds ov) = Some ov'"
      using Cons.prems(1) by (auto split: option.splits)
    have "d \<notin> set ds" using Cons.prems(2) Some ds by simp
    moreover have "ov' d = set_overrides a ds ov d"
      using Cons.IH [OF rest] Cons.prems(2) by simp
    ultimately show ?thesis by (simp add: set_overrides_apply)
  qed
qed

lemma computeCollapsedPositions_skip:
  assumes "r c = None"
  shows "computeCollapsedPositions (pre @ c # post) m r = computeCollapsedPositions (pre @ post) m r"
  using assms
  by (simp add: computeCollapsedPositions_def computeCollapsedPositions_loop_append
      split: option.splits)

lemma computeCollapsedPositions_last:
  assumes fin: "finite (dom m)" and acyc: "acyclic (edges m)"
    and anchor: "r c = Some a"
    and desc: "(c, d) \<in> (edges m)\<^sup>+"
    and later: "\<forall>c'\<in>set post. r c' \<noteq> None \<longrightarrow> (c', d) \<notin> (edges m)\<^sup>+"
  shows "\<exists>ov. computeCollapsedPositions (pre @ c # post) m r = Some ov \<and>
           ov d = Some \<lparr>pos_x = pos_x a, pos_y = pos_y a\<rparr>"
proof -
  obtain ov1 where ov1: "computeCollapsedPositions_loop pre m r Map.empty = Some ov1"
    using computeCollapsedPositions_loop_total [OF fin acyc] by blast
  obtain ds where ds: "getDescendantIds c m = Some ds" "set ds = (edges m)\<^sup>+ `` {c}"
    using getDescendantIds_total [OF fin acyc] by blast
  obtain ov where ov: "computeCollapsedPositions_loop post m r (set_overrides a ds ov1) = Some ov"
    using computeCollapsedPositions_loop_total [OF fin acyc] by blast
  have "\<forall>c'\<in>set post. \<forall>ds'. r c' \<noteq> None \<longrightarrow> getDescendantIds c' m = Some ds' \<longrightarrow> d \<notin> set ds'"
  proof (intro ballI allI impI)
    fix c' ds'
    assume c': "c' \<in> set post" "r c' \<noteq> None" "getDescendantIds c' m = Some ds'"
    obtain ds'' where "getDescendantIds c' m = Some ds''" "set ds'' = (edges m)\<^sup>+ `` {c'}"
      using getDescendantIds_total [OF fin acyc] by blast
    then have "set ds' = (edges m)\<^sup>+ `` {c'}" using c'(3) by simp
    then show "d \<notin> set ds'" using later c'(1,2) by auto
  qed
  from computeCollapsedPositions_loop_untouched [OF ov this]
  have "ov d = set_overrides a ds ov1 d" .
  moreover have "d \<in> set ds" using ds(2) desc by auto
  ultimately have "ov d = Some \<lparr>pos_x = pos_x a, pos_y = pos_y a\<rparr>"
    by (simp add: set_overrides_apply)
  moreover have "computeCollapsedPositions (pre @ c # post) m r = Some ov"
    using ov1 anchor ds(1) ov
    by (simp add: computeCollapsedPositions_def computeCollapsedPositions_loop_append)
  ultimately show ?thesis by blast
qed

lemma acyclic_edges_by_rank:
  fixes rank :: "string \<Rightarrow> nat"
  assumes "\<And>p c. (p, c) \<in> edges m \<Longrightarrow> rank c < rank p"
  shows "acyclic (edges m)"
proof -
  have "(edges m)\<inverse> \<subseteq> measure rank" using assms by auto
  then have "wf ((edges m)\<inverse>)" by (rule wf_subset [OF wf_measure])
  then have "acyclic ((edges m)\<inverse>)" by (rule wf_acyclic)
  then show ?thesis by simp
qed

subsection \<open>The example tree\<close>

lemma example_tree_finite: "finite (dom example_tree)"
  by (simp add: example_tree_def)

lemma example_tree_edges:
  "edges example_tree = {(''root'', ''a''), (''root'', ''b''), (''a'', ''c''), (''a'', ''d'')}"
  by (auto simp: edges_def example_tree_def childId_def split: if_splits)

lemma example_tree_acyclic: "acyclic (edges example_tree)"
  by (rule acyclic_edges_by_rank [where rank = example_rank])
     (auto simp: example_tree_edges example_rank_def)

subsection \<open>Rounding to the nearest double\<close>

lemma pow2_powr: "pow2 e = 2 powr (of_int e)"
proof (cases "0 \<le> e")
  case True
  then obtain n where "e = int n" by (metis nonneg_int_cases)
  then show ?thesis by (simp add: pow2_def powr_realpow)
next
  case False
  then obtain n where "e = - int n" by (metis int_cases2 of_nat_0_le_iff)
  then show ?thesis using False by (simp add: pow2_def powr_minus_divide powr_realpow)
qed

lemma pow2_int_le: "(2::int) ^ n \<le> z \<Longrightarrow> (2::real) ^ n \<le> of_int z"
  by (metis of_int_le_iff of_int_numeral of_int_power)

lemma int_le_pow2: "z \<le> (2::int) ^ n \<Longrightarrow> of_int z \<le> (2::real) ^ n"
  by (metis of_int_le_iff of_int_numeral of_int_power)

lemma int_less_pow2: "z < (2::int) ^ n \<Longrightarrow> of_int z < (2::real) ^ n"
  by (metis of_int_less_iff of_int_numeral of_int_power)

lemma pow2_pos [simp]: "0 < pow2 e"
  by (simp add: pow2_powr)

lemma pow2_nonneg [simp]: "0 \<le> pow2 e"
  by (simp add: pow2_powr)

lemma abs_pow2 [simp]: "\<bar>pow2 e\<bar> = pow2 e"
  by simp

lemma pow2_add: "pow2 (a + b) = pow2 a * pow2 b"
  by (simp add: pow2_powr powr_add)

lemma pow2_le_iff [simp]: "pow2 a \<le> pow2 b \<longleftrightarrow> a \<le> b"
  by (simp add: pow2_powr)

lemma pow2_less_iff [simp]: "pow2 a < pow2 b \<longleftrightarrow> a < b"
  by (simp add: pow2_powr)

lemma pow2_nat: "0 \<le> e \<Longrightarrow> pow2 e = 2 ^ nat e"
  by (simp add: pow2_def)

lemma pow2_0 [simp]: "pow2 0 = 1"
  by (simp add: pow2_def)

lemma binade_bounds:
  assumes "x \<noteq> 0"
  shows "pow2 (binade x - 1) \<le> \<bar>x\<bar>" and "\<bar>x\<bar> < pow2 (binade x)"
proof -
  have "pow2 (binade x - 1) \<le> \<bar>x\<bar> \<and> \<bar>x\<bar> < pow2 (binade x)"
  proof (cases "1 \<le> \<bar>x\<bar>")
    case True
    let ?z = "\<lfloor>\<bar>x\<bar>\<rfloor>"
    have z: "0 < ?z" using True by simp
    have n: "1 \<le> bitlen ?z" using z by (simp add: bitlen_alt_def)
    have b: "2 ^ nat (bitlen ?z - 1) \<le> ?z" "?z < 2 ^ nat (bitlen ?z)"
      using bitlen_bounds [OF z] by simp_all
    have p: "pow2 (bitlen ?z - 1) = 2 ^ nat (bitlen ?z - 1)" "pow2 (bitlen ?z) = 2 ^ nat (bitlen ?z)"
      using n by (simp_all add: pow2_nat)
    have "(2::real) ^ nat (bitlen ?z - 1) \<le> real_of_int ?z"
      using b(1) by (rule pow2_int_le)
    moreover have "real_of_int ?z \<le> \<bar>x\<bar>" by (rule of_int_floor_le)
    ultimately have lo: "pow2 (bitlen ?z - 1) \<le> \<bar>x\<bar>"
      unfolding p by (rule order_trans)
    have "?z + 1 \<le> 2 ^ nat (bitlen ?z)" using b(2) by simp
    then have "real_of_int (?z + 1) \<le> 2 ^ nat (bitlen ?z)" by (rule int_le_pow2)
    moreover have "\<bar>x\<bar> < real_of_int (?z + 1)" by linarith
    ultimately have hi: "\<bar>x\<bar> < pow2 (bitlen ?z)"
      unfolding p by (rule less_le_trans [rotated])
    show ?thesis using lo hi True by (simp add: binade_def)
  next
    case False
    let ?y = "1 / \<bar>x\<bar>"
    let ?z = "\<lceil>?y\<rceil>"
    have x: "0 < \<bar>x\<bar>" "\<bar>x\<bar> < 1" using assms False by simp_all
    have y: "1 < ?y" using x by simp
    have z: "0 < ?z - 1" using y by (simp add: less_ceiling_iff)
    let ?K = "bitlen (?z - 1)"
    have K: "1 \<le> ?K" using z by (simp add: bitlen_alt_def)
    have b: "2 ^ nat (?K - 1) \<le> ?z - 1" "?z - 1 < 2 ^ nat ?K"
      using bitlen_bounds [OF z] by simp_all
    have "?z \<le> 2 ^ nat ?K" using b(2) by simp
    then have "real_of_int ?z \<le> 2 ^ nat ?K" by (rule int_le_pow2)
    moreover have "?y \<le> real_of_int ?z" by (rule le_of_int_ceiling)
    ultimately have "?y \<le> 2 ^ nat ?K" by (rule order_trans [rotated])
    then have "1 \<le> 2 ^ nat ?K * \<bar>x\<bar>" using x by (simp add: field_simps)
    then have "1 / 2 ^ nat ?K \<le> \<bar>x\<bar>" by (simp add: field_simps)
    moreover have "pow2 (- ?K) = 1 / 2 ^ nat ?K" using K by (simp add: pow2_def)
    ultimately have lo: "pow2 (- ?K) \<le> \<bar>x\<bar>" by simp
    have "(2::real) ^ nat (?K - 1) \<le> real_of_int (?z - 1)"
      using b(1) by (rule pow2_int_le)
    moreover have "real_of_int (?z - 1) < ?y" using ceiling_correct [of ?y] by simp
    ultimately have "2 ^ nat (?K - 1) < ?y" by (rule le_less_trans)
    then have "2 ^ nat (?K - 1) * \<bar>x\<bar> < 1" using x by (simp add: field_simps)
    then have "\<bar>x\<bar> < 1 / 2 ^ nat (?K - 1)" by (simp add: field_simps)
    moreover have "pow2 (1 - ?K) = 1 / 2 ^ nat (?K - 1)"
    proof (cases "?K = 1")
      case True
      then show ?thesis by simp
    next
      case False
      then have "1 - ?K < 0" using K by simp
      then show ?thesis by (simp add: pow2_def)
    qed
    ultimately have hi: "\<bar>x\<bar> < pow2 (1 - ?K)" by simp
    show ?thesis using lo hi False by (simp add: binade_def)
  qed
  then show "pow2 (binade x - 1) \<le> \<bar>x\<bar>" and "\<bar>x\<bar> < pow2 (binade x)" by simp_all
qed

lemma round_half_even_cases:
  "round_half_even y = \<lfloor>y\<rfloor> \<and> y - of_int \<lfloor>y\<rfloor> \<le> 1 / 2 \<or>
   round_half_even y = \<lfloor>y\<rfloor> + 1 \<and> 1 / 2 \<le> y - of_int \<lfloor>y\<rfloor>"
  by (auto simp: round_half_even_def Let_def)

lemma round_half_even_nearest: "\<bar>y - of_int (round_half_even y)\<bar> \<le> \<bar>y - of_int j\<bar>"
proof -
  let ?f = "\<lfloor>y\<rfloor>"
  have f: "of_int ?f \<le> y" "y < of_int ?f + 1" by linarith+
  consider "j \<le> ?f" | "?f + 1 \<le> j" by linarith
  then show ?thesis
  proof cases
    case 1
    then have "real_of_int j \<le> real_of_int ?f" by (simp only: of_int_le_iff)
    then show ?thesis using f round_half_even_cases [of y] by auto
  next
    case 2
    then have "real_of_int (?f + 1) \<le> real_of_int j" by (simp only: of_int_le_iff)
    then show ?thesis using f round_half_even_cases [of y] by auto
  qed
qed

lemma dyadic53I: "\<bar>m\<bar> < 2 ^ 53 \<Longrightarrow> - 1074 \<le> e \<Longrightarrow> real_of_int m * pow2 e \<in> dyadic53"
  by (auto simp: dyadic53_def)

lemma pow2_diff_nat: "g \<le> e \<Longrightarrow> pow2 e = 2 ^ nat (e - g) * pow2 g"
proof -
  assume "g \<le> e"
  then have "pow2 (e - g) = 2 ^ nat (e - g)" by (simp add: pow2_nat)
  moreover have "pow2 e = pow2 (e - g) * pow2 g" using pow2_add [of "e - g" g] by simp
  ultimately show ?thesis by simp
qed

lemma pow2_numeral_exp: "pow2 (int n) = 2 ^ n"
  by (simp add: pow2_def)

lemma dyadic53_grid:
  assumes "d \<in> dyadic53"
  shows "(\<exists>j. d = real_of_int j * pow2 g) \<or> (\<bar>d\<bar> < pow2 (g + 52) \<and> - 1074 < g)"
proof -
  obtain m e where me: "\<bar>m\<bar> < 2 ^ 53" "- 1074 \<le> e" "d = real_of_int m * pow2 e"
    using assms by (auto simp: dyadic53_def)
  show ?thesis
  proof (cases "g \<le> e")
    case True
    have "d = real_of_int (m * 2 ^ nat (e - g)) * pow2 g"
      using me(3) pow2_diff_nat [OF True] by simp
    then show ?thesis by blast
  next
    case False
    have "real_of_int \<bar>m\<bar> < 2 ^ 53" using me(1) by (rule int_less_pow2)
    then have "real_of_int \<bar>m\<bar> * pow2 e < 2 ^ 53 * pow2 e"
      by (rule mult_strict_right_mono) (rule pow2_pos)
    moreover have "\<bar>d\<bar> = real_of_int \<bar>m\<bar> * pow2 e"
      unfolding me(3) by (simp add: abs_mult)
    ultimately have "\<bar>d\<bar> < 2 ^ 53 * pow2 e" by (simp only:)
    also have "\<dots> = pow2 (53 + e)"
      using pow2_add [of 53 e] pow2_numeral_exp [of 53] by simp
    also have "\<dots> \<le> pow2 (g + 52)" using False by simp
    finally show ?thesis using False me(2) by simp
  qed
qed

lemma ulp_of_pos [simp]: "0 < ulp_of x"
  by (simp add: ulp_of_def)

lemma abs_diff_scaled:
  assumes "0 < u"
  shows "\<bar>x - real_of_int q * u\<bar> = u * \<bar>x / u - real_of_int q\<bar>"
proof -
  have "x - real_of_int q * u = u * (x / u - real_of_int q)"
    using assms by (simp add: field_simps)
  then show ?thesis using assms by (simp add: abs_mult)
qed

lemma fl_nearest_grid:
  assumes "x \<noteq> 0"
  shows "\<bar>x - fl x\<bar> \<le> \<bar>x - real_of_int j * ulp_of x\<bar>"
proof -
  let ?u = "ulp_of x"
  have "\<bar>x / ?u - real_of_int (round_half_even (x / ?u))\<bar> \<le> \<bar>x / ?u - real_of_int j\<bar>"
    by (rule round_half_even_nearest)
  then have "?u * \<bar>x / ?u - real_of_int (round_half_even (x / ?u))\<bar>
      \<le> ?u * \<bar>x / ?u - real_of_int j\<bar>"
    by (simp add: mult_left_mono)
  then show ?thesis
    using assms by (simp add: fl_def abs_diff_scaled [symmetric])
qed

lemma fl_zero [simp]: "fl 0 = 0"
  by (simp add: fl_def)

lemma fl_nearest:
  assumes "d \<in> dyadic53"
  shows "\<bar>x - fl x\<bar> \<le> \<bar>x - d\<bar>"
proof (cases "x = 0")
  case True
  then show ?thesis by simp
next
  case False
  let ?g = "max (binade x - 53) (- 1074)"
  have u: "ulp_of x = pow2 ?g" by (simp add: ulp_of_def)
  from dyadic53_grid [OF assms, of ?g]
  consider j where "d = real_of_int j * pow2 ?g"
    | "\<bar>d\<bar> < pow2 (?g + 52)" "- 1074 < ?g" by blast
  then show ?thesis
  proof cases
    case 1
    then show ?thesis using fl_nearest_grid [OF False, of j] u by simp
  next
    case 2
    then have g: "?g = binade x - 53" by simp
    have lo: "pow2 (binade x - 1) \<le> \<bar>x\<bar>" using binade_bounds(1) [OF False] .
    have d: "\<bar>d\<bar> < pow2 (binade x - 1)" using 2(1) g by simp
    have L: "pow2 (binade x - 1) = 2 ^ 52 * pow2 ?g"
      using pow2_add [of 52 ?g] pow2_numeral_exp [of 52] g by simp
    show ?thesis
    proof (cases "0 < x")
      case True
      have "\<bar>x - fl x\<bar> \<le> \<bar>x - real_of_int (2 ^ 52) * ulp_of x\<bar>"
        by (rule fl_nearest_grid [OF False])
      also have "\<dots> = \<bar>x - pow2 (binade x - 1)\<bar>" using L u by simp
      also have "\<dots> \<le> \<bar>x - d\<bar>" using lo d True by linarith
      finally show ?thesis .
    next
      case neg: False
      have "\<bar>x - fl x\<bar> \<le> \<bar>x - real_of_int (- (2 ^ 52)) * ulp_of x\<bar>"
        by (rule fl_nearest_grid [OF False])
      also have "\<dots> = \<bar>x + pow2 (binade x - 1)\<bar>" using L u by simp
      also have "\<dots> \<le> \<bar>x - d\<bar>" using lo d neg False by linarith
      finally show ?thesis .
    qed
  qed
qed

lemma round_half_even_bound:
  assumes "\<bar>y\<bar> < 2 ^ 53"
  shows "\<bar>round_half_even y\<bar> \<le> 2 ^ 53"
proof -
  have "real_of_int (- (2 ^ 53)) \<le> y" using assms by simp
  then have lo: "- (2 ^ 53) \<le> \<lfloor>y\<rfloor>" by (simp only: le_floor_iff)
  have "y < real_of_int (2 ^ 53)" using assms by simp
  then have hi: "\<lfloor>y\<rfloor> < 2 ^ 53" by (simp only: floor_less_iff)
  from round_half_even_cases [of y]
  consider "round_half_even y = \<lfloor>y\<rfloor>" | "round_half_even y = \<lfloor>y\<rfloor> + 1" by blast
  then show ?thesis using lo hi by cases linarith+
qed

lemma pow2_Suc: "pow2 (g + 1) = 2 * pow2 g"
proof -
  have "pow2 1 = 2" by (simp add: pow2_def)
  then show ?thesis using pow2_add [of g 1] by simp
qed

lemma fl_dyadic53: "fl x \<in> dyadic53"
proof (cases "x = 0")
  case True
  have "real_of_int 0 * pow2 0 \<in> dyadic53" by (rule dyadic53I) simp_all
  then show ?thesis using True by simp
next
  case False
  let ?g = "max (binade x - 53) (- 1074)"
  let ?q = "round_half_even (x / ulp_of x)"
  have u: "ulp_of x = pow2 ?g" by (simp add: ulp_of_def)
  have "\<bar>x\<bar> < pow2 (binade x)" using binade_bounds(2) [OF False] .
  also have "\<dots> = 2 ^ 53 * pow2 (binade x - 53)"
    using pow2_add [of 53 "binade x - 53"] pow2_numeral_exp [of 53] by simp
  also have "\<dots> \<le> 2 ^ 53 * pow2 ?g" by simp
  finally have "\<bar>x\<bar> < 2 ^ 53 * ulp_of x" using u by simp
  then have "\<bar>x / ulp_of x\<bar> < 2 ^ 53" by (simp add: field_simps)
  then have q: "\<bar>?q\<bar> \<le> 2 ^ 53" by (rule round_half_even_bound)
  have r: "fl x = real_of_int ?q * pow2 ?g" using False u by (simp add: fl_def)
  consider "\<bar>?q\<bar> < 2 ^ 53" | "?q = 2 ^ 53" | "?q = - (2 ^ 53)" using q by linarith
  then show ?thesis
  proof cases
    case 1
    then show ?thesis unfolding r by (rule dyadic53I) simp
  next
    case 2
    have "real_of_int (2 ^ 52) * pow2 (?g + 1) \<in> dyadic53" by (rule dyadic53I) simp_all
    moreover have "pow2 (?g + 1) = 2 * pow2 ?g" by (rule pow2_Suc)
    ultimately show ?thesis unfolding r 2 by simp
  next
    case 3
    have "real_of_int (- (2 ^ 52)) * pow2 (?g + 1) \<in> dyadic53" by (rule dyadic53I) simp_all
    moreover have "pow2 (?g + 1) = 2 * pow2 ?g" by (rule pow2_Suc)
    ultimately show ?thesis unfolding r 3 by simp
  qed
qed

lemma fl_exact: "d \<in> dyadic53 \<Longrightarrow> fl d = d"
  using fl_nearest [of d d] by simp

lemma fl_mono:
  assumes "x \<le> y"
  shows "fl x \<le> fl y"
proof (rule ccontr)
  assume "\<not> fl x \<le> fl y"
  then have lt: "fl y < fl x" by simp
  have a: "\<bar>x - fl x\<bar> \<le> \<bar>x - fl y\<bar>" by (rule fl_nearest [OF fl_dyadic53])
  have b: "\<bar>y - fl y\<bar> \<le> \<bar>y - fl x\<bar>" by (rule fl_nearest [OF fl_dyadic53])
  have "x = y" using a b lt assms by linarith
  then show False using lt by simp
qed

lemma fl_less:
  assumes "x \<le> t" "t \<in> dyadic53" "p \<in> dyadic53" "\<bar>x - p\<bar> < \<bar>x - t\<bar>"
  shows "fl x < t"
proof -
  have "fl x \<le> t" using fl_mono [OF assms(1)] fl_exact [OF assms(2)] by simp
  moreover have "fl x \<noteq> t" using fl_nearest [OF assms(3), of x] assms(4) by auto
  ultimately show ?thesis by simp
qed

lemma fl_greater:
  assumes "t \<le> y" "t \<in> dyadic53" "s \<in> dyadic53" "\<bar>y - s\<bar> < \<bar>y - t\<bar>"
  shows "t < fl y"
proof -
  have "t \<le> fl y" using fl_mono [OF assms(1)] fl_exact [OF assms(2)] by simp
  moreover have "fl y \<noteq> t" using fl_nearest [OF assms(3), of y] assms(4) by auto
  ultimately show ?thesis by simp
qed

lemma fl_le: "x \<le> d \<Longrightarrow> d \<in> dyadic53 \<Longrightarrow> fl x \<le> d"
  using fl_mono [of x d] fl_exact [of d] by simp

lemma fl_ge: "d \<le> x \<Longrightarrow> d \<in> dyadic53 \<Longrightarrow> d \<le> fl x"
  using fl_mono [of d x] fl_exact [of d] by simp

subsection \<open>The easing curve in double arithmetic\<close>

lemma dyadic53_scale:
  assumes "t \<in> dyadic53" "0 \<le> k"
  shows "t * pow2 k \<in> dyadic53"
proof -
  obtain m e where me: "\<bar>m\<bar> < 2 ^ 53" "- 1074 \<le> e" "t = real_of_int m * pow2 e"
    using assms(1) by (auto simp: dyadic53_def)
  have "real_of_int m * pow2 (e + k) \<in> dyadic53"
    using me(1,2) assms(2) by (intro dyadic53I) simp_all
  then show ?thesis using me(3) by (simp add: pow2_add mult.assoc)
qed

lemma dyadic53_neg:
  assumes "t \<in> dyadic53"
  shows "- t \<in> dyadic53"
proof -
  obtain m e where me: "\<bar>m\<bar> < 2 ^ 53" "- 1074 \<le> e" "t = real_of_int m * pow2 e"
    using assms(1) by (auto simp: dyadic53_def)
  have "real_of_int (- m) * pow2 e \<in> dyadic53"
    using me(1,2) by (intro dyadic53I) simp_all
  then show ?thesis using me(3) by simp
qed

lemma dyadic53_times2: "t \<in> dyadic53 \<Longrightarrow> 2 * t \<in> dyadic53"
  using dyadic53_scale [of t 1] by (simp add: pow2_def mult.commute)

lemma dyadic53_times4: "t \<in> dyadic53 \<Longrightarrow> 4 * t \<in> dyadic53"
  using dyadic53_scale [of t 2] by (simp add: pow2_def mult.commute)

lemma doubles_dyadic53: "t \<in> doubles \<Longrightarrow> t \<in> dyadic53"
  by (simp add: doubles_def)

lemma doublesI: "t \<in> dyadic53 \<Longrightarrow> \<bar>t\<bar> \<le> 4 \<Longrightarrow> t \<in> doubles"
  by (simp add: doubles_def)

lemma dyadic53_const:
  "0 \<in> dyadic53" "1 \<in> dyadic53" "2 \<in> dyadic53" "1 / 2 \<in> dyadic53" "1 / 4 \<in> dyadic53"
proof -
  show "0 \<in> dyadic53" using dyadic53I [of 0 0] by simp
  show "1 \<in> dyadic53" using dyadic53I [of 1 0] by simp
  show "2 \<in> dyadic53" using dyadic53I [of 2 0] by simp
  show "1 / 2 \<in> dyadic53" using dyadic53I [of 1 "- 1"] by (simp add: pow2_def)
  show "1 / 4 \<in> dyadic53" using dyadic53I [of 1 "- 2"] by (simp add: pow2_def)
qed

text \<open>A double of magnitude at least \<open>2\<^sup>E\<close> lies on the grid of step \<open>2\<^sup>E\<^sup>-\<^sup>5\<^sup>2\<close>.\<close>

lemma dyadic53_on_grid:
  assumes "t \<in> dyadic53" "pow2 (g + 52) \<le> \<bar>t\<bar>"
  obtains j where "t = real_of_int j * pow2 g"
  using dyadic53_grid [OF assms(1), of g] assms(2) by auto

lemma upper_arg:
  assumes "t \<in> dyadic53" "1 / 2 \<le> t" "t \<le> 1"
  shows "fl (fl (- 2 * t) + 2) = 2 - 2 * t" and "2 - 2 * t \<in> dyadic53"
proof -
  have "- (2 * t) \<in> dyadic53" using assms(1) by (intro dyadic53_neg dyadic53_times2)
  then have a: "fl (- 2 * t) = - 2 * t" using fl_exact [of "- (2 * t)"] by simp
  have "pow2 (- 53 + 52) \<le> \<bar>t\<bar>" using assms(2) by (simp add: pow2_def)
  then obtain j where j: "t = real_of_int j * pow2 (- 53)"
    using dyadic53_on_grid [OF assms(1)] by blast
  have p: "pow2 (- 53) = 1 / 2 ^ 53" "pow2 (- 52) = 1 / 2 ^ 52" by (simp_all add: pow2_def)
  have jt: "real_of_int j = t * 2 ^ 53" unfolding j p by simp
  have "real_of_int j \<le> 2 ^ 53" unfolding jt using assms(3) by simp
  then have hi: "j \<le> 2 ^ 53" by (metis of_int_le_iff of_int_numeral of_int_power)
  have "(2::real) ^ 52 \<le> real_of_int j" unfolding jt using assms(2) by simp
  then have lo: "2 ^ 52 \<le> j" by (metis of_int_le_iff of_int_numeral of_int_power)
  have "real_of_int (2 ^ 53 - j) * pow2 (- 52) \<in> dyadic53"
    using lo hi by (intro dyadic53I) simp_all
  moreover have "real_of_int (2 ^ 53 - j) * pow2 (- 52) = 2 - 2 * t"
    unfolding p of_int_diff jt by simp
  ultimately show b: "2 - 2 * t \<in> dyadic53" by simp
  have "fl (- 2 * t + 2) = 2 - 2 * t" using fl_exact [OF b] by (simp add: algebra_simps)
  then show "fl (fl (- 2 * t) + 2) = 2 - 2 * t" unfolding a .
qed

lemma ease_upper_eq:
  assumes "t \<in> dyadic53" "1 / 2 \<le> t" "t \<le> 1"
  shows "easeInOutCubic P t = fl (1 - fl (P (2 - 2 * t) 3 / 2))"
  unfolding easeInOutCubic_def upper_arg(1) [OF assms] using assms(2) by simp

lemma ease_lower_eq:
  assumes "t < 1 / 2"
  shows "easeInOutCubic P t = fl (fl (fl (4 * t) * t) * t)"
  unfolding easeInOutCubic_def using assms by simp

lemma faithful_cubeD:
  assumes "faithful_cube P" "u \<in> dyadic53" "0 \<le> u" "u \<le> 1" "d \<in> dyadic53" "\<bar>d\<bar> \<le> 4"
  shows "d \<le> u ^ 3 \<Longrightarrow> d \<le> P u 3" and "u ^ 3 \<le> d \<Longrightarrow> P u 3 \<le> d"
proof -
  have u: "u \<in> doubles" using assms(2,3,4) by (intro doublesI) simp_all
  have d: "d \<in> doubles" using assms(5,6) by (rule doublesI)
  show "d \<le> u ^ 3 \<Longrightarrow> d \<le> P u 3" and "u ^ 3 \<le> d \<Longrightarrow> P u 3 \<le> d"
    using assms(1,3,4) u d unfolding faithful_cube_def by blast+
qed

lemma cube_unit: "0 \<le> u \<Longrightarrow> u \<le> 1 \<Longrightarrow> 0 \<le> u ^ 3 \<and> u ^ 3 \<le> (1::real)"
  by (simp add: power_le_one)

lemma ease_lower_bounds:
  assumes "0 \<le> t" "t < 1 / 2"
  shows "0 \<le> easeInOutCubic P t" and "easeInOutCubic P t \<le> 1 / 2"
proof -
  let ?a = "fl (4 * t)" and ?b = "fl (fl (4 * t) * t)"
  have a0: "0 \<le> ?a" using assms by (intro fl_ge dyadic53_const) simp
  have a2: "?a \<le> 2" using assms by (intro fl_le dyadic53_const) simp
  have "?a * t \<le> 2 * (1 / 2)" using a0 a2 assms by (intro mult_mono) simp_all
  then have "?a * t \<le> 1" by simp
  then have b1: "?b \<le> 1" by (intro fl_le dyadic53_const)
  have "0 \<le> ?a * t" using a0 assms by simp
  then have b0: "0 \<le> ?b" by (intro fl_ge dyadic53_const)
  have "?b * t \<le> 1 * (1 / 2)" using b0 b1 assms by (intro mult_mono) simp_all
  then have "?b * t \<le> 1 / 2" by simp
  then have c1: "fl (?b * t) \<le> 1 / 2" by (intro fl_le dyadic53_const)
  have "0 \<le> ?b * t" using b0 assms by simp
  then have c0: "0 \<le> fl (?b * t)" by (intro fl_ge dyadic53_const)
  show "0 \<le> easeInOutCubic P t" and "easeInOutCubic P t \<le> 1 / 2"
    unfolding ease_lower_eq [OF assms(2)] using c0 c1 by blast+
qed

lemma ease_upper_bounds:
  assumes "faithful_cube P" "t \<in> dyadic53" "1 / 2 \<le> t" "t \<le> 1"
  shows "1 / 2 \<le> easeInOutCubic P t" and "easeInOutCubic P t \<le> 1"
proof -
  let ?u = "2 - 2 * t"
  have u: "?u \<in> dyadic53" "0 \<le> ?u" "?u \<le> 1"
    using upper_arg(2) [OF assms(2,3,4)] assms(3,4) by simp_all
  have c: "0 \<le> ?u ^ 3" "?u ^ 3 \<le> 1" using cube_unit [OF u(2,3)] by simp_all
  have p0: "0 \<le> P ?u 3"
    using faithful_cubeD(1) [OF assms(1) u dyadic53_const(1)] c by simp
  have p1: "P ?u 3 \<le> 1"
    using faithful_cubeD(2) [OF assms(1) u dyadic53_const(2)] c by simp
  have "0 \<le> P ?u 3 / 2" using p0 by simp
  then have w0: "0 \<le> fl (P ?u 3 / 2)" by (intro fl_ge dyadic53_const)
  have "P ?u 3 / 2 \<le> 1 / 2" using p1 by simp
  then have w1: "fl (P ?u 3 / 2) \<le> 1 / 2" by (intro fl_le dyadic53_const)
  have "1 / 2 \<le> 1 - fl (P ?u 3 / 2)" using w1 by linarith
  then have r0: "1 / 2 \<le> fl (1 - fl (P ?u 3 / 2))" by (intro fl_ge dyadic53_const)
  have "1 - fl (P ?u 3 / 2) \<le> 1" using w0 by linarith
  then have r1: "fl (1 - fl (P ?u 3 / 2)) \<le> 1" by (intro fl_le dyadic53_const)
  show "1 / 2 \<le> easeInOutCubic P t" and "easeInOutCubic P t \<le> 1"
    unfolding ease_upper_eq [OF assms(2,3,4)] using r0 r1 by blast+
qed

lemma faithful_cube_exact:
  assumes "faithful_cube P" "u \<in> dyadic53" "0 \<le> u" "u \<le> 1" "u ^ 3 \<in> dyadic53"
  shows "P u 3 = u ^ 3"
proof -
  have b: "\<bar>u ^ 3\<bar> \<le> 4" using cube_unit [OF assms(3,4)] by simp
  show ?thesis
    using faithful_cubeD(1) [OF assms(1,2,3,4,5) b] faithful_cubeD(2) [OF assms(1,2,3,4,5) b]
    by simp
qed

lemma ease_values:
  assumes "faithful_cube P"
  shows "easeInOutCubic P 0 = 0" "easeInOutCubic P 1 = 1" "easeInOutCubic P (1 / 2) = 1 / 2"
proof -
  show "easeInOutCubic P 0 = 0" by (simp add: easeInOutCubic_def)
  have p0: "P 0 3 = 0"
    using faithful_cube_exact [OF assms dyadic53_const(1)] dyadic53_const(1) by simp
  have p1: "P 1 3 = 1"
    using faithful_cube_exact [OF assms dyadic53_const(2)] dyadic53_const(2) by simp
  have h: "fl (1 / 2) = 1 / 2" "fl 1 = 1"
    by (rule fl_exact, rule dyadic53_const)+
  have "easeInOutCubic P 1 = fl (1 - fl (P (2 - 2 * 1) 3 / 2))"
    by (rule ease_upper_eq) (simp_all add: dyadic53_const)
  also have "\<dots> = fl 1" using p0 by simp
  finally show "easeInOutCubic P 1 = 1" using h(2) by simp
  have "easeInOutCubic P (1 / 2) = fl (1 - fl (P (2 - 2 * (1 / 2)) 3 / 2))"
    by (rule ease_upper_eq) (simp_all add: dyadic53_const)
  also have "\<dots> = fl (1 - fl (1 / 2))" using p1 by simp
  also have "\<dots> = fl (1 - 1 / 2)" by (simp only: h(1))
  also have "\<dots> = fl (1 / 2)" by simp
  also have "\<dots> = 1 / 2" by (rule h(1))
  finally show "easeInOutCubic P (1 / 2) = 1 / 2" .
qed

lemma ease_lower_mono:
  assumes "0 \<le> t1" "t1 \<le> t2" "t2 < 1 / 2"
  shows "easeInOutCubic P t1 \<le> easeInOutCubic P t2"
proof -
  have a0: "0 \<le> fl (4 * t1)" using assms by (intro fl_ge dyadic53_const) simp
  have a: "fl (4 * t1) \<le> fl (4 * t2)" using assms by (intro fl_mono) simp
  have "fl (4 * t1) * t1 \<le> fl (4 * t2) * t2"
    using a0 a assms by (intro mult_mono) simp_all
  then have b: "fl (fl (4 * t1) * t1) \<le> fl (fl (4 * t2) * t2)" by (rule fl_mono)
  have "0 \<le> fl (4 * t1) * t1" using a0 assms by simp
  then have b0: "0 \<le> fl (fl (4 * t1) * t1)" by (intro fl_ge dyadic53_const)
  have "fl (fl (4 * t1) * t1) * t1 \<le> fl (fl (4 * t2) * t2) * t2"
    using b0 b assms by (intro mult_mono) simp_all
  then have "fl (fl (fl (4 * t1) * t1) * t1) \<le> fl (fl (fl (4 * t2) * t2) * t2)"
    by (rule fl_mono)
  moreover have "t1 < 1 / 2" using assms by simp
  ultimately show ?thesis using assms(3) by (simp only: ease_lower_eq)
qed

lemma ease_upper_mono:
  assumes "monotone_cube P" "t1 \<in> dyadic53" "t2 \<in> dyadic53" "1 / 2 \<le> t1" "t1 \<le> t2" "t2 \<le> 1"
  shows "easeInOutCubic P t1 \<le> easeInOutCubic P t2"
proof -
  let ?u1 = "2 - 2 * t1" and ?u2 = "2 - 2 * t2"
  have t: "t1 \<le> 1" "1 / 2 \<le> t2" using assms(4,5,6) by simp_all
  have u1: "?u1 \<in> dyadic53" using upper_arg(2) [OF assms(2,4) t(1)] .
  have u2: "?u2 \<in> dyadic53" using upper_arg(2) [OF assms(3) t(2) assms(6)] .
  have "?u1 \<in> doubles" "?u2 \<in> doubles"
    using u1 u2 assms(4,5,6) by (auto intro!: doublesI)
  moreover have "0 \<le> ?u2 \<and> ?u2 \<le> ?u1 \<and> ?u1 \<le> 1" using assms(4,5,6) by simp
  ultimately have "P ?u2 3 \<le> P ?u1 3"
    using assms(1) unfolding monotone_cube_def by blast
  then have "P ?u2 3 / 2 \<le> P ?u1 3 / 2" by simp
  then have "fl (P ?u2 3 / 2) \<le> fl (P ?u1 3 / 2)" by (rule fl_mono)
  then have "1 - fl (P ?u1 3 / 2) \<le> 1 - fl (P ?u2 3 / 2)" by linarith
  then have "fl (1 - fl (P ?u1 3 / 2)) \<le> fl (1 - fl (P ?u2 3 / 2))" by (rule fl_mono)
  then show ?thesis
    unfolding ease_upper_eq [OF assms(2,4) t(1)] ease_upper_eq [OF assms(3) t(2) assms(6)] .
qed

lemma ease_mono:
  assumes "faithful_cube P" "monotone_cube P" "t1 \<in> dyadic53" "t2 \<in> dyadic53"
    "0 \<le> t1" "t1 \<le> t2" "t2 \<le> 1"
  shows "easeInOutCubic P t1 \<le> easeInOutCubic P t2"
proof -
  consider "t2 < 1 / 2" | "1 / 2 \<le> t1" | "t1 < 1 / 2" "1 / 2 \<le> t2" by linarith
  then show ?thesis
  proof cases
    case 1
    then show ?thesis using assms(5,6) by (intro ease_lower_mono)
  next
    case 2
    then show ?thesis using assms by (intro ease_upper_mono)
  next
    case 3
    have "easeInOutCubic P t1 \<le> 1 / 2" using assms(5) 3(1) by (rule ease_lower_bounds)
    moreover have "1 / 2 \<le> easeInOutCubic P t2"
      using assms(1,4) 3(2) assms(7) by (rule ease_upper_bounds)
    ultimately show ?thesis by linarith
  qed
qed

lemma ease_accelerating:
  assumes "t \<in> dyadic53" "0 < t" "t < 1 / 2"
  shows "easeInOutCubic P t < t"
proof -
  let ?b = "fl (fl (4 * t) * t)"
  have a: "fl (4 * t) = 4 * t" using assms(1) by (intro fl_exact dyadic53_times4)
  have "0 \<le> 4 * t * t" using assms(2) by simp
  then have b0: "0 \<le> ?b" unfolding a by (intro fl_ge dyadic53_const)
  have x0: "0 \<le> ?b * t" using b0 assms(2) by simp
  have "fl (?b * t) < t"
  proof (cases "t \<le> 1 / 4")
    case True
    have "4 * t * t \<le> 1 * (1 / 4)" using True assms(2) by (intro mult_mono) simp_all
    then have "4 * t * t \<le> 1 / 4" by simp
    then have "?b \<le> 1 / 4" unfolding a by (intro fl_le dyadic53_const)
    then have "?b * t \<le> 1 / 4 * t" using assms(2) by (intro mult_right_mono) simp_all
    then have x: "?b * t \<le> t / 4" by simp
    show ?thesis
    proof (rule fl_less [OF _ assms(1) dyadic53_const(1)])
      show "?b * t \<le> t" using x assms(2) by linarith
      show "\<bar>?b * t - 0\<bar> < \<bar>?b * t - t\<bar>" using x x0 assms(2) by linarith
    qed
  next
    case False
    then have q: "1 / 4 < t" by simp
    have "pow2 (- 54 + 52) \<le> \<bar>t\<bar>" using q by (simp add: pow2_def)
    then obtain j where j: "t = real_of_int j * pow2 (- 54)"
      using dyadic53_on_grid [OF assms(1)] by blast
    have p: "pow2 (- 54) = 1 / 2 ^ 54" "pow2 (- 53) = 1 / 2 ^ 53" by (simp_all add: pow2_def)
    have jt: "real_of_int j = t * 2 ^ 54" unfolding j p by simp
    have "real_of_int j < 2 ^ 53" unfolding jt using assms(3) by simp
    then have hi: "j < 2 ^ 53" by (metis of_int_less_iff of_int_numeral of_int_power)
    have "0 < real_of_int j" unfolding jt using assms(2) by simp
    then have lo: "0 < j" by simp
    define d :: real where "d = 1 / 2 ^ 55"
    define e :: real where "e = 1 / 2 ^ 53"
    have de: "0 < d" "e = 4 * d" "0 < e" "e \<le> 1" by (simp_all add: d_def e_def)
    have pd: "real_of_int (j - 1) * pow2 (- 54) \<in> dyadic53"
      using lo hi by (intro dyadic53I) simp_all
    have pv: "real_of_int (j - 1) * pow2 (- 54) = t - 2 * d"
      unfolding of_int_diff jt p d_def by (simp add: field_simps)
    have "j \<le> 2 ^ 53 - 1" using hi by simp
    then have "real_of_int j \<le> real_of_int (2 ^ 53 - 1)" by (simp only: of_int_le_iff)
    then have t: "2 * t \<le> 1 - e" unfolding jt e_def by simp
    have bd: "real_of_int (2 ^ 53 - 1) * pow2 (- 53) \<in> dyadic53"
      by (intro dyadic53I) simp_all
    have bv: "real_of_int (2 ^ 53 - 1) * pow2 (- 53) = 1 - e"
      unfolding p e_def by simp
    have "(2 * t) * (2 * t) \<le> (1 - e) * 1"
      using t assms(2,3) de by (intro mult_mono) simp_all
    then have "4 * t * t \<le> 1 - e" by simp
    then have "?b \<le> 1 - e"
      unfolding a using bd unfolding bv by (intro fl_le)
    then have f1: "?b * t \<le> (1 - e) * t"
      using assms(2) by (intro mult_right_mono) simp_all
    have f2: "e * (1 / 4) < e * t"
      using q de by (intro mult_strict_left_mono) simp_all
    have f3: "(1 - e) * t = t - e * t" by (simp add: algebra_simps)
    have x: "?b * t < t - d" using f1 f2 de unfolding f3 by linarith
    show ?thesis
    proof (rule fl_less [OF _ assms(1) pd])
      show "?b * t \<le> t" using x de by linarith
      show "\<bar>?b * t - real_of_int (j - 1) * pow2 (- 54)\<bar> < \<bar>?b * t - t\<bar>"
        unfolding pv using x de by linarith
    qed
  qed
  then show ?thesis unfolding ease_lower_eq [OF assms(3)] .
qed

lemma cube_bound_upper:
  fixes u e :: real
  assumes "1 / 2 < u" "u \<le> 1 - e" "0 < e" "e \<le> 1 / 8"
  shows "u ^ 3 \<le> u - e"
proof -
  have cube: "u ^ 3 = u * (u * u)" by (simp add: power3_eq_cube)
  show ?thesis
  proof (cases "u \<le> 3 / 4")
    case True
    have "u * u \<le> 3 / 4 * (3 / 4)" using True assms(1) by (intro mult_mono) simp_all
    then have "u * u \<le> 9 / 16" by simp
    then have "u * (u * u) \<le> u * (9 / 16)" using assms(1) by (intro mult_left_mono) simp_all
    then show ?thesis unfolding cube using assms(1,4) by linarith
  next
    case False
    have "u * u \<le> (1 - e) * (1 - e)" using assms by (intro mult_mono) simp_all
    then have a: "u * (u * u) \<le> u * ((1 - e) * (1 - e))"
      using assms(1) by (intro mult_left_mono) simp_all
    have b: "u * ((1 - e) * (1 - e)) = u - u * (e * (2 - e))" by (simp add: algebra_simps)
    have "0 \<le> e * (2 - e)" using assms(3,4) by simp
    then have c: "3 / 4 * (e * (2 - e)) \<le> u * (e * (2 - e))"
      using False by (intro mult_right_mono) simp_all
    have "1 \<le> 3 / 4 * (2 - e)" using assms(4) by simp
    then have m1: "e * 1 \<le> e * (3 / 4 * (2 - e))"
      using assms(3) by (intro mult_left_mono) simp_all
    have m2: "e * (3 / 4 * (2 - e)) = 3 / 4 * (e * (2 - e))" by (simp only: mult.left_commute)
    have d: "e \<le> 3 / 4 * (e * (2 - e))" using m1 unfolding m2 by (simp only: mult_1_right)
    show ?thesis unfolding cube using a c d unfolding b by linarith
  qed
qed

lemma ease_decelerating:
  assumes "faithful_cube P" "t \<in> dyadic53" "1 / 2 < t" "t < 1"
  shows "t < easeInOutCubic P t"
proof -
  have tb: "1 / 2 \<le> t" "t \<le> 1" using assms(3,4) by simp_all
  define u where "u = 2 - 2 * t"
  have ud: "u \<in> dyadic53" unfolding u_def using upper_arg(2) [OF assms(2) tb] .
  have u01: "0 \<le> u" "u \<le> 1" using assms(3,4) by (simp_all add: u_def)
  define e :: real where "e = 1 / 2 ^ 52"
  have e: "0 < e" "e \<le> 1 / 8" by (simp_all add: e_def)
  have p: "pow2 (- 52) = e" "pow2 (- 53) = e / 2" "pow2 (- 54) = e / 4" "pow2 (- 55) = e / 8"
    by (simp_all add: pow2_def e_def)
  have "pow2 (- 53 + 52) \<le> \<bar>t\<bar>" using assms(3) by (simp add: pow2_def)
  then obtain j where j: "t = real_of_int j * pow2 (- 53)"
    using dyadic53_on_grid [OF assms(2)] by blast
  have jt: "real_of_int j = t * 2 ^ 53" unfolding j by (simp add: pow2_def)
  have "real_of_int j < 2 ^ 53" unfolding jt using assms(4) by simp
  then have hi: "j < 2 ^ 53" by (metis of_int_less_iff of_int_numeral of_int_power)
  have "(2::real) ^ 52 < real_of_int j" unfolding jt using assms(3) by simp
  then have lo: "2 ^ 52 < j" by (metis of_int_less_iff of_int_numeral of_int_power)
  define k where "k = 2 ^ 53 - j"
  have k: "1 \<le> k" "k < 2 ^ 52" using lo hi by (simp_all add: k_def)
  have uk: "u = real_of_int k * e"
    unfolding u_def k_def of_int_diff jt e_def by (simp add: field_simps)
  have "real_of_int 1 \<le> real_of_int k" using k(1) by (simp only: of_int_le_iff)
  then have "1 * e \<le> real_of_int k * e" using e(1) by (intro mult_right_mono) simp_all
  then have ue: "e \<le> u" unfolding uk by simp
  have "k \<le> 2 ^ 52 - 1" using k(2) by simp
  then have "real_of_int k \<le> real_of_int (2 ^ 52 - 1)" by (simp only: of_int_le_iff)
  then have h1: "real_of_int k * e \<le> real_of_int (2 ^ 52 - 1) * e"
    using e(1) by (intro mult_right_mono) simp_all
  have h2: "real_of_int (2 ^ 52 - 1) * e = 1 - e" by (simp add: e_def)
  have u1e: "u \<le> 1 - e" unfolding uk using h1 h2 by linarith
  have tu: "t = 1 - u / 2" by (simp add: u_def diff_divide_distrib)
  let ?s = "t + e / 2"
  have sd: "?s \<in> dyadic53"
  proof (cases "k = 1")
    case True
    then have "?s = 1" unfolding tu uk by simp
    then show ?thesis using dyadic53_const(2) by simp
  next
    case False
    have "real_of_int (j + 1) * pow2 (- 53) \<in> dyadic53"
      using False k lo unfolding k_def by (intro dyadic53I) simp_all
    moreover have "real_of_int (j + 1) * pow2 (- 53) = ?s"
      unfolding of_int_add p j by (simp add: algebra_simps)
    ultimately show ?thesis by simp
  qed
  let ?w = "fl (P u 3 / 2)"
  have "t < fl (1 - ?w)"
  proof (cases "u \<le> 1 / 2")
    case True
    have km: "\<bar>k\<bar> < 2 ^ 53" using k by simp
    have dd: "real_of_int k * pow2 (- 54) \<in> dyadic53" "real_of_int k * pow2 (- 55) \<in> dyadic53"
      by (rule dyadic53I [OF km], simp)+
    have dv: "real_of_int k * pow2 (- 54) = u / 4" "real_of_int k * pow2 (- 55) = u / 8"
      unfolding p uk by simp_all
    have "u * u \<le> 1 / 2 * (1 / 2)" using True u01 by (intro mult_mono) simp_all
    then have "u * (u * u) \<le> u * (1 / 4)" using u01 by (intro mult_left_mono) simp_all
    then have "u ^ 3 \<le> u / 4" by (simp add: power3_eq_cube)
    moreover have "\<bar>u / 4\<bar> \<le> 4" using u01 by simp
    ultimately have "P u 3 \<le> u / 4"
      using faithful_cubeD(2) [OF assms(1) ud u01, of "u / 4"] dd(1) unfolding dv by simp
    then have "P u 3 / 2 \<le> u / 8" by simp
    then have w: "?w \<le> u / 8" using dd(2) unfolding dv by (intro fl_le)
    show ?thesis
    proof (rule fl_greater [OF _ assms(2) sd])
      show "t \<le> 1 - ?w" unfolding tu using w u01 by linarith
      show "\<bar>1 - ?w - ?s\<bar> < \<bar>1 - ?w - t\<bar>" unfolding tu using w ue e by linarith
    qed
  next
    case False
    then have uh: "1 / 2 < u" by simp
    have k1: "1 \<le> k - 1 \<or> k - 1 = 0" using k by linarith
    have km: "\<bar>k - 1\<bar> < 2 ^ 53" using k by simp
    have dd: "real_of_int (k - 1) * pow2 (- 52) \<in> dyadic53"
      "real_of_int (k - 1) * pow2 (- 53) \<in> dyadic53"
      by (rule dyadic53I [OF km], simp)+
    have dv: "real_of_int (k - 1) * pow2 (- 52) = u - e"
      "real_of_int (k - 1) * pow2 (- 53) = (u - e) / 2"
      unfolding p uk of_int_diff by (simp_all add: algebra_simps)
    have "u ^ 3 \<le> u - e" using uh u1e e by (rule cube_bound_upper)
    moreover have "\<bar>u - e\<bar> \<le> 4" using u01 e by simp
    ultimately have "P u 3 \<le> u - e"
      using faithful_cubeD(2) [OF assms(1) ud u01, of "u - e"] dd(1) unfolding dv by simp
    then have "P u 3 / 2 \<le> (u - e) / 2" by simp
    then have w: "?w \<le> (u - e) / 2" using dd(2) unfolding dv by (intro fl_le)
    have "?w \<le> u / 2 - e / 2" using w by (simp add: diff_divide_distrib)
    then have "?s \<le> 1 - ?w" unfolding tu by linarith
    then have "?s \<le> fl (1 - ?w)" using sd by (intro fl_ge)
    then show ?thesis using e by linarith
  qed
  then show ?thesis unfolding ease_upper_eq [OF assms(2) tb] u_def .
qed

lemma rounded_pow_faithful: "faithful_cube rounded_pow"
  unfolding faithful_cube_def rounded_pow_def
  by (auto intro!: fl_ge fl_le doubles_dyadic53)

lemma rounded_pow_monotone: "monotone_cube rounded_pow"
  unfolding monotone_cube_def rounded_pow_def
  by (auto intro!: fl_mono power_mono)

lemma fl_underflow:
  assumes "\<bar>x\<bar> < pow2 (- 1075)"
  shows "fl x = 0"
proof -
  obtain j where j: "fl x = real_of_int j * pow2 (- 1074)"
    using dyadic53_grid [OF fl_dyadic53, of x "- 1074"] by auto
  have "\<bar>x - fl x\<bar> \<le> \<bar>x - 0\<bar>" by (rule fl_nearest [OF dyadic53_const(1)])
  then have "\<bar>fl x\<bar> \<le> 2 * \<bar>x\<bar>" by linarith
  also have "\<dots> < 2 * pow2 (- 1075)" using assms by simp
  also have "\<dots> = pow2 (- 1074)" using pow2_Suc [of "- 1075"] by simp
  finally have "\<bar>real_of_int j\<bar> * pow2 (- 1074) < 1 * pow2 (- 1074)"
    unfolding j by (simp add: abs_mult)
  then have "\<bar>real_of_int j\<bar> < 1" by (simp only: mult_less_cancel_right_pos [OF pow2_pos])
  then have "j = 0" by linarith
  then show ?thesis using j by simp
qed

lemma fl_round_to_one:
  assumes "1 - pow2 (- 54) < y" "y \<le> 1"
  shows "fl y = 1"
proof -
  define d where "d = pow2 (- 54)"
  have p: "pow2 (- 53) = 2 * d" "0 < d" "d \<le> 1 / 8"
    using pow2_Suc [of "- 54"] by (simp_all add: d_def) (simp add: pow2_def)
  have km: "\<bar>2 ^ 53 - 1 :: int\<bar> < 2 ^ 53" by simp
  have td: "real_of_int (2 ^ 53 - 1) * pow2 (- 53) \<in> dyadic53"
    by (rule dyadic53I [OF km]) simp
  have "pow2 (- 53) = 1 / 2 ^ 53" by (simp add: pow2_def)
  then have "real_of_int (2 ^ 53 - 1) * pow2 (- 53) = 1 - pow2 (- 53)" by simp
  then have tv: "real_of_int (2 ^ 53 - 1) * pow2 (- 53) = 1 - 2 * d" unfolding p .
  have y: "1 - d < y" using assms(1) by (simp add: d_def)
  have hi: "fl y \<le> 1" using assms(2) by (intro fl_le dyadic53_const)
  have lo: "1 - 2 * d < fl y"
  proof -
    have "real_of_int (2 ^ 53 - 1) * pow2 (- 53) < fl y"
    proof (rule fl_greater [OF _ td dyadic53_const(2)])
      show "real_of_int (2 ^ 53 - 1) * pow2 (- 53) \<le> y" unfolding tv using y p by linarith
      show "\<bar>y - 1\<bar> < \<bar>y - real_of_int (2 ^ 53 - 1) * pow2 (- 53)\<bar>"
        unfolding tv using y assms(2) p by linarith
    qed
    then show ?thesis unfolding tv .
  qed
  have "pow2 (- 53 + 52) \<le> \<bar>fl y\<bar>" using lo p by (simp add: pow2_def)
  then obtain j where j: "fl y = real_of_int j * pow2 (- 53)"
    using dyadic53_on_grid [OF fl_dyadic53] by blast
  have "real_of_int (2 ^ 53 - 1) * pow2 (- 53) < real_of_int j * pow2 (- 53)"
    using lo unfolding tv j .
  then have "real_of_int (2 ^ 53 - 1) < real_of_int j"
    by (simp only: mult_less_cancel_right_pos [OF pow2_pos])
  then have "2 ^ 53 - 1 < j" by (simp only: of_int_less_iff)
  moreover have "real_of_int j * pow2 (- 53) \<le> real_of_int (2 ^ 53) * pow2 (- 53)"
    using hi unfolding j by (simp add: pow2_def)
  then have "real_of_int j \<le> real_of_int (2 ^ 53)"
    by (simp only: mult_le_cancel_right_pos [OF pow2_pos])
  then have "j \<le> 2 ^ 53" by (simp only: of_int_le_iff)
  ultimately have "j = 2 ^ 53" by simp
  then show ?thesis unfolding j by (simp add: pow2_def)
qed

lemma dyadic53_frac:
  assumes "\<bar>m\<bar> < 2 ^ 53" "n \<le> 1074"
  shows "real_of_int m / 2 ^ n \<in> dyadic53"
proof -
  have "real_of_int m * pow2 (- int n) \<in> dyadic53"
    using assms by (intro dyadic53I) simp_all
  moreover have "pow2 (- int n) = 1 / 2 ^ n" by (simp add: pow2_def)
  ultimately show ?thesis by simp
qed

lemma dyadic53_pow2: "- 1074 \<le> e \<Longrightarrow> pow2 e \<in> dyadic53"
  using dyadic53I [of 1 e] by simp

lemma ease_tiny: "easeInOutCubic P (pow2 (- 600)) = 0"
proof -
  let ?t = "pow2 (- 600)"
  have "?t < pow2 (- 1)" by simp
  then have lt: "?t < 1 / 2" by (simp add: pow2_def)
  have a: "fl (4 * ?t) = 4 * ?t" by (intro fl_exact dyadic53_times4 dyadic53_pow2) simp
  have "4 * ?t * ?t = pow2 2 * pow2 (- 600) * pow2 (- 600)" by (simp add: pow2_def)
  also have "\<dots> = pow2 (- 1198)" by (simp add: pow2_add [symmetric])
  finally have m: "4 * ?t * ?t = pow2 (- 1198)" .
  have b: "fl (4 * ?t * ?t) = 0" unfolding m by (rule fl_underflow) simp
  show ?thesis unfolding ease_lower_eq [OF lt] a b by simp
qed

lemma ease_below_one: "easeInOutCubic rounded_pow (1 - pow2 (- 53)) = 1"
proof -
  let ?t = "1 - pow2 (- 53)"
  have p: "pow2 (- 53) = 1 / 2 ^ 53" by (simp add: pow2_def)
  have km: "\<bar>2 ^ 53 - 1 :: int\<bar> < 2 ^ 53" by simp
  have m: "real_of_int (2 ^ 53 - 1) * pow2 (- 53) \<in> dyadic53"
    by (rule dyadic53I [OF km]) simp
  have "real_of_int (2 ^ 53 - 1) * pow2 (- 53) = ?t" using p by simp
  then have td: "?t \<in> dyadic53" using m by (simp only:)
  have tb: "1 / 2 \<le> ?t" "?t \<le> 1" unfolding p by simp_all
  have u: "2 - 2 * ?t = pow2 (- 52)" by (simp add: pow2_def)
  have c: "pow2 (- 52) ^ 3 = pow2 (- 156)" by (simp add: pow2_def power_divide)
  have r: "rounded_pow (pow2 (- 52)) 3 = pow2 (- 156)"
    unfolding rounded_pow_def using fl_exact [OF dyadic53_pow2, of "- 156"] c by simp
  have h: "pow2 (- 156) / 2 = pow2 (- 157)" using pow2_Suc [of "- 157"] by simp
  have w: "fl (pow2 (- 156) / 2) = pow2 (- 157)"
    unfolding h by (intro fl_exact dyadic53_pow2) simp
  have "fl (1 - pow2 (- 157)) = 1"
  proof (rule fl_round_to_one)
    have "pow2 (- 157) < pow2 (- 54)" by simp
    then show "1 - pow2 (- 54) < 1 - pow2 (- 157)" by simp
    show "1 - pow2 (- 157) \<le> 1" by simp
  qed
  then show ?thesis unfolding ease_upper_eq [OF td tb] u r w .
qed

lemma ease_quarters:
  "easeInOutCubic rounded_pow (1 / 4) = 1 / 16" "easeInOutCubic rounded_pow (3 / 4) = 15 / 16"
proof -
  have m: "1 / 4 \<in> dyadic53" "1 / 16 \<in> dyadic53" "1 / 8 \<in> dyadic53" "3 / 4 \<in> dyadic53"
    "15 / 16 \<in> dyadic53"
    using dyadic53_frac [of 1 2] dyadic53_frac [of 1 4] dyadic53_frac [of 1 3]
      dyadic53_frac [of 3 2] dyadic53_frac [of 15 4] by simp_all
  have "easeInOutCubic rounded_pow (1 / 4) = fl (fl (fl (4 * (1 / 4)) * (1 / 4)) * (1 / 4))"
    by (rule ease_lower_eq) simp
  also have "\<dots> = fl (fl (fl 1 * (1 / 4)) * (1 / 4))" by simp
  also have "\<dots> = fl (fl (1 / 4) * (1 / 4))" unfolding fl_exact [OF dyadic53_const(2)] by simp
  also have "\<dots> = fl (1 / 4 * (1 / 4))" unfolding fl_exact [OF m(1)] ..
  also have "\<dots> = fl (1 / 16)" by simp
  also have "\<dots> = 1 / 16" by (rule fl_exact [OF m(2)])
  finally show "easeInOutCubic rounded_pow (1 / 4) = 1 / 16" .
  have "easeInOutCubic rounded_pow (3 / 4) = fl (1 - fl (rounded_pow (2 - 2 * (3 / 4)) 3 / 2))"
    by (rule ease_upper_eq [OF m(4)]) simp_all
  also have "\<dots> = fl (1 - fl (fl (1 / 8) / 2))" by (simp add: rounded_pow_def power_divide)
  also have "\<dots> = fl (1 - fl (1 / 8 / 2))" unfolding fl_exact [OF m(3)] ..
  also have "\<dots> = fl (1 - fl (1 / 16))" by simp
  also have "\<dots> = fl (1 - 1 / 16)" unfolding fl_exact [OF m(2)] ..
  also have "\<dots> = fl (15 / 16)" by simp
  also have "\<dots> = 15 / 16" by (rule fl_exact [OF m(5)])
  finally show "easeInOutCubic rounded_pow (3 / 4) = 15 / 16" .
qed

text \<open>
  Claim C9 as stated fails in double arithmetic: the function is not strictly increasing on
  \<open>[0,1]\<close>. The products \<open>4 * t * t\<close> underflow to zero for \<open>t = 2\<^sup>-\<^sup>6\<^sup>0\<^sup>0\<close>, so that this
  \<open>t\<close> is eased to \<open>0\<close> as \<open>0\<close> itself is; and \<open>t = 1 - 2\<^sup>-\<^sup>5\<^sup>3\<close>, the double just below
  \<open>1\<close>, is eased to \<open>1\<close> as \<open>1\<close> itself is, since \<open>1 - 2\<^sup>-\<^sup>1\<^sup>5\<^sup>7\<close> rounds to \<open>1\<close>.
\<close>

theorem easeInOutCubic_shape_counterexample:
  "(0::real) \<in> doubles \<and> pow2 (- 600) \<in> doubles \<and>
   (0::real) \<le> 0 \<and> 0 < pow2 (- 600) \<and> pow2 (- 600) \<le> 1 \<and>
   \<not> easeInOutCubic rounded_pow 0 < easeInOutCubic rounded_pow (pow2 (- 600)) \<and>
   1 - pow2 (- 53) \<in> doubles \<and> (1::real) \<in> doubles \<and>
   0 \<le> 1 - pow2 (- 53) \<and> 1 - pow2 (- 53) < 1 \<and>
   \<not> easeInOutCubic rounded_pow (1 - pow2 (- 53)) < easeInOutCubic rounded_pow 1"
proof -
  have p: "pow2 (- 600) < 1" "pow2 (- 53) < 1"
    using pow2_less_iff [of "- 600" 0] pow2_less_iff [of "- 53" 0] by simp_all
  have km: "\<bar>2 ^ 53 - 1 :: int\<bar> < 2 ^ 53" by simp
  have m: "real_of_int (2 ^ 53 - 1) * pow2 (- 53) \<in> dyadic53"
    by (rule dyadic53I [OF km]) simp
  have "pow2 (- 53) = 1 / 2 ^ 53" by (simp add: pow2_def)
  then have "real_of_int (2 ^ 53 - 1) * pow2 (- 53) = 1 - pow2 (- 53)" by simp
  then have td: "1 - pow2 (- 53) \<in> dyadic53" using m by (simp only:)
  have q: "0 < pow2 (- 600)" "0 < pow2 (- 53)" by (rule pow2_pos)+
  have d0: "(0::real) \<in> doubles" by (rule doublesI [OF dyadic53_const(1)]) simp
  have d1: "(1::real) \<in> doubles" by (rule doublesI [OF dyadic53_const(2)]) simp
  have "pow2 (- 600) \<in> dyadic53" by (rule dyadic53_pow2) simp
  then have d2: "pow2 (- 600) \<in> doubles" using p q by (intro doublesI) simp_all
  have "\<bar>1 - pow2 (- 53)\<bar> \<le> 4" using p q by linarith
  then have d3: "1 - pow2 (- 53) \<in> doubles" using td by (intro doublesI)
  note d = d0 d2 d3 d1
  have v: "easeInOutCubic rounded_pow 0 = 0" "easeInOutCubic rounded_pow 1 = 1"
    using ease_values [OF rounded_pow_faithful] by simp_all
  show ?thesis
    using d p q v ease_tiny [of rounded_pow] ease_below_one by simp
qed

text \<open>
  Claim C9, amended. Computed in double arithmetic, with a \<open>Math.pow(x, 3)\<close> that is
  faithfully rounded and monotone on \<open>[0,1]\<close> (as a correctly rounded one is), the easing
  function fixes \<open>0\<close>, \<open>1/2\<close> and \<open>1\<close>, maps the doubles of \<open>[0,1]\<close> into \<open>[0,1]\<close>, is
  increasing on them in the weak sense (\<open>ease t1 \<le> ease t2\<close> for \<open>t1 < t2\<close>), lies strictly
  below the identity on \<open>(0, 1/2)\<close> and strictly above it on \<open>(1/2, 1)\<close>.
\<close>

theorem easeInOutCubic_shape:
  assumes "faithful_cube Math_pow" and "monotone_cube Math_pow"
  shows
    "easeInOutCubic Math_pow 0 = 0 \<and> easeInOutCubic Math_pow 1 = 1 \<and>
     easeInOutCubic Math_pow (1 / 2) = 1 / 2 \<and>
     (\<forall>t\<in>doubles. 0 \<le> t \<and> t \<le> 1 \<longrightarrow>
        0 \<le> easeInOutCubic Math_pow t \<and> easeInOutCubic Math_pow t \<le> 1) \<and>
     (\<forall>t1\<in>doubles. \<forall>t2\<in>doubles. 0 \<le> t1 \<and> t1 < t2 \<and> t2 \<le> 1 \<longrightarrow>
        easeInOutCubic Math_pow t1 \<le> easeInOutCubic Math_pow t2) \<and>
     (\<forall>t\<in>doubles. 0 < t \<and> t < 1 / 2 \<longrightarrow> easeInOutCubic Math_pow t < t) \<and>
     (\<forall>t\<in>doubles. 1 / 2 < t \<and> t < 1 \<longrightarrow> t < easeInOutCubic Math_pow t)"
proof (intro conjI ballI impI)
  show "easeInOutCubic Math_pow 0 = 0" "easeInOutCubic Math_pow 1 = 1"
    "easeInOutCubic Math_pow (1 / 2) = 1 / 2"
    using ease_values [OF assms(1)] by blast+
next
  fix t assume t: "t \<in> doubles" "0 \<le> t \<and> t \<le> 1"
  show "0 \<le> easeInOutCubic Math_pow t"
    using ease_lower_bounds(1) [of t Math_pow]
      ease_upper_bounds(1) [OF assms(1) doubles_dyadic53 [OF t(1)]] t(2)
    by (cases "t < 1 / 2") (auto simp: not_less)
  show "easeInOutCubic Math_pow t \<le> 1"
    using ease_lower_bounds(2) [of t Math_pow]
      ease_upper_bounds(2) [OF assms(1) doubles_dyadic53 [OF t(1)]] t(2)
    by (cases "t < 1 / 2") (auto simp: not_less)
next
  fix t1 t2 assume "t1 \<in> doubles" "t2 \<in> doubles" "0 \<le> t1 \<and> t1 < t2 \<and> t2 \<le> 1"
  then show "easeInOutCubic Math_pow t1 \<le> easeInOutCubic Math_pow t2"
    using ease_mono [OF assms, of t1 t2] by (simp add: doubles_dyadic53)
next
  fix t assume "t \<in> doubles" "0 < t \<and> t < 1 / 2"
  then show "easeInOutCubic Math_pow t < t"
    using ease_accelerating [of t Math_pow] by (simp add: doubles_dyadic53)
next
  fix t assume "t \<in> doubles" "1 / 2 < t \<and> t < 1"
  then show "t < easeInOutCubic Math_pow t"
    using ease_decelerating [OF assms(1), of t] by (simp add: doubles_dyadic53)
qed

text \<open>The theorem at \<open>t = 1/4\<close> and \<open>t = 3/4\<close>, with a correctly rounded \<open>Math.pow\<close>.\<close>

theorem easeInOutCubic_shape_witness:
  "(1 / 4 :: real) \<in> doubles \<and> (3 / 4 :: real) \<in> doubles \<and>
   (0::real) \<le> 1 / 4 \<and> (1 / 4 :: real) < 3 / 4 \<and> (3 / 4 :: real) \<le> 1 \<and>
   (0::real) < 1 / 4 \<and> (1 / 4 :: real) < 1 / 2 \<and> (1 / 2 :: real) < 3 / 4 \<and> (3 / 4 :: real) < 1 \<and>
   easeInOutCubic rounded_pow (1 / 4) = 1 / 16 \<and>
   easeInOutCubic rounded_pow (3 / 4) = 15 / 16 \<and>
   0 \<le> easeInOutCubic rounded_pow (1 / 4) \<and> easeInOutCubic rounded_pow (3 / 4) \<le> 1 \<and>
   easeInOutCubic rounded_pow (1 / 4) \<le> easeInOutCubic rounded_pow (3 / 4) \<and>
   easeInOutCubic rounded_pow (1 / 4) < 1 / 4 \<and> 3 / 4 < easeInOutCubic rounded_pow (3 / 4) \<and>
   easeInOutCubic rounded_pow 0 = 0 \<and> easeInOutCubic rounded_pow 1 = 1 \<and>
   easeInOutCubic rounded_pow (1 / 2) = 1 / 2"
proof -
  have d: "(1 / 4 :: real) \<in> doubles" "(3 / 4 :: real) \<in> doubles"
    using dyadic53_frac [of 1 2] dyadic53_frac [of 3 2] by (auto intro!: doublesI)
  note t = easeInOutCubic_shape [OF rounded_pow_faithful rounded_pow_monotone]
  have a: "easeInOutCubic rounded_pow (1 / 4) \<le> easeInOutCubic rounded_pow (3 / 4)"
    using t d by force
  have b: "easeInOutCubic rounded_pow (1 / 4) < 1 / 4"
    "3 / 4 < easeInOutCubic rounded_pow (3 / 4)"
    using t d by force+
  have c: "0 \<le> easeInOutCubic rounded_pow (1 / 4)" "easeInOutCubic rounded_pow (3 / 4) \<le> 1"
    using t d by force+
  have v: "easeInOutCubic rounded_pow 0 = 0" "easeInOutCubic rounded_pow 1 = 1"
    "easeInOutCubic rounded_pow (1 / 2) = 1 / 2"
    using t by blast+
  show ?thesis using d a b c v ease_quarters by simp
qed

subsection \<open>The traversal excludes the queried node\<close>

text \<open>
  Claim C10. On a finite acyclic parent-to-children map the traversal returns, its result
  is exactly the set of strict descendants of the queried id and does not contain that id;
  collapsing that single node returns an override map that has no entry for the node itself
  and entries for strict descendants only.
\<close>

theorem getDescendantIds_excludes_self:
  assumes "finite (dom m)" and "acyclic (edges m)"
  shows "\<exists>ds ov. getDescendantIds nodeId m = Some ds \<and> nodeId \<notin> set ds \<and>
           set ds = (edges m)\<^sup>+ `` {nodeId} \<and>
           computeCollapsedPositions [nodeId] m r = Some ov \<and>
           ov nodeId = None \<and> dom ov \<subseteq> set ds"
proof -
  obtain ds where ds: "getDescendantIds nodeId m = Some ds" "set ds = (edges m)\<^sup>+ `` {nodeId}"
    using getDescendantIds_total [OF assms] by blast
  have self: "nodeId \<notin> set ds"
    using assms(2) ds(2) by (auto simp: acyclic_def)
  show ?thesis
  proof (cases "r nodeId")
    case None
    then have "computeCollapsedPositions [nodeId] m r = Some Map.empty"
      by (simp add: computeCollapsedPositions_def)
    then show ?thesis using ds self by simp
  next
    case (Some a)
    then have "computeCollapsedPositions [nodeId] m r = Some (set_overrides a ds Map.empty)"
      using ds(1) by (simp add: computeCollapsedPositions_def)
    moreover have "set_overrides a ds Map.empty nodeId = None"
      using self by (simp add: set_overrides_apply)
    moreover have "dom (set_overrides a ds Map.empty) \<subseteq> set ds"
      by (simp add: set_overrides_dom)
    ultimately show ?thesis using ds self by simp
  qed
qed

text \<open>The theorem on the tree of the tests, collapsing \<open>a\<close>.\<close>

theorem getDescendantIds_excludes_self_witness:
  "finite (dom example_tree) \<and> acyclic (edges example_tree) \<and>
   getDescendantIds ''a'' example_tree = Some [''c'', ''d''] \<and>
   ''a'' \<notin> set [''c'', ''d''] \<and>
   (\<exists>ov. computeCollapsedPositions [''a''] example_tree example_rendered = Some ov \<and>
         ov ''a'' = None \<and> dom ov \<subseteq> set [''c'', ''d''])"
proof -
  have ds: "getDescendantIds ''a'' example_tree = Some [''c'', ''d'']"
    by (simp add: getDescendantIds_def getDescendantIds_loop_eval example_tree_def childId_def)
  obtain ds' ov where
    r: "getDescendantIds ''a'' example_tree = Some ds'" "''a'' \<notin> set ds'"
       "computeCollapsedPositions [''a''] example_tree example_rendered = Some ov"
       "ov ''a'' = None" "dom ov \<subseteq> set ds'"
    using getDescendantIds_excludes_self [OF example_tree_finite example_tree_acyclic,
        of "''a''" example_rendered] by blast
  have eq: "ds' = [''c'', ''d'']" using r(1) ds by simp
  have "\<exists>ov. computeCollapsedPositions [''a''] example_tree example_rendered = Some ov \<and>
         ov ''a'' = None \<and> dom ov \<subseteq> set [''c'', ''d'']"
    using r(3,4,5) unfolding eq by blast
  moreover have "''a'' \<notin> set [''c'', ''d'']" using r(2) unfolding eq .
  ultimately show ?thesis
    using ds example_tree_finite example_tree_acyclic by (intro conjI)
qed

subsection \<open>Later collapsed nodes overwrite earlier ones\<close>

text \<open>
  Claim C6. On a finite acyclic map: if \<open>d\<close> is a descendant of the collapsed node
  \<open>c\<close>, \<open>c\<close> has a rendered position, and no collapsed node processed after \<open>c\<close>
  that has a rendered position has \<open>d\<close> among its descendants, then the override of
  \<open>d\<close> is the position of \<open>c\<close>, whatever earlier collapsed nodes assigned. A collapsed
  id without a rendered position contributes nothing, and collapsing only such an id yields
  the empty override map.
\<close>

theorem computeCollapsedPositions_later_anchor_wins:
  "(finite (dom m) \<and> acyclic (edges m) \<and> r c = Some a \<and> (c, d) \<in> (edges m)\<^sup>+ \<and>
    (\<forall>c'\<in>set post. r c' \<noteq> None \<longrightarrow> (c', d) \<notin> (edges m)\<^sup>+)
    \<longrightarrow> (\<exists>ov. computeCollapsedPositions (pre @ c # post) m r = Some ov \<and>
              ov d = Some \<lparr>pos_x = pos_x a, pos_y = pos_y a\<rparr>)) \<and>
   (r c = None \<longrightarrow>
      computeCollapsedPositions (pre @ c # post) m r = computeCollapsedPositions (pre @ post) m r \<and>
      computeCollapsedPositions [c] m r = Some Map.empty)"
proof (intro conjI impI)
  assume "finite (dom m) \<and> acyclic (edges m) \<and> r c = Some a \<and> (c, d) \<in> (edges m)\<^sup>+ \<and>
    (\<forall>c'\<in>set post. r c' \<noteq> None \<longrightarrow> (c', d) \<notin> (edges m)\<^sup>+)"
  then show "\<exists>ov. computeCollapsedPositions (pre @ c # post) m r = Some ov \<and>
              ov d = Some \<lparr>pos_x = pos_x a, pos_y = pos_y a\<rparr>"
    using computeCollapsedPositions_last [of m r c a d post pre] by blast
next
  assume "r c = None"
  then show "computeCollapsedPositions (pre @ c # post) m r = computeCollapsedPositions (pre @ post) m r"
    by (rule computeCollapsedPositions_skip)
next
  assume "r c = None"
  then show "computeCollapsedPositions [c] m r = Some Map.empty"
    by (simp add: computeCollapsedPositions_def)
qed

text \<open>The theorem on the tree of the tests, for both processing orders of \<open>root\<close> and \<open>a\<close>.\<close>

theorem computeCollapsedPositions_later_anchor_wins_witness:
  "finite (dom example_tree) \<and> acyclic (edges example_tree) \<and>
   example_rendered ''root'' = Some \<lparr>pos_x = 100, pos_y = 100\<rparr> \<and>
   example_rendered ''a'' = Some \<lparr>pos_x = 200, pos_y = 200\<rparr> \<and>
   (''root'', ''c'') \<in> (edges example_tree)\<^sup>+ \<and> (''a'', ''c'') \<in> (edges example_tree)\<^sup>+ \<and>
   example_rendered ''b'' = Some \<lparr>pos_x = 300, pos_y = 100\<rparr> \<and>
   (''b'', ''c'') \<notin> (edges example_tree)\<^sup>+ \<and>
   (\<exists>ov. computeCollapsedPositions [''root'', ''a'', ''b''] example_tree example_rendered = Some ov \<and>
         ov ''c'' = Some \<lparr>pos_x = 200, pos_y = 200\<rparr>) \<and>
   (\<exists>ov. computeCollapsedPositions [''a'', ''root''] example_tree example_rendered = Some ov \<and>
         ov ''c'' = Some \<lparr>pos_x = 100, pos_y = 100\<rparr>) \<and>
   example_rendered ''nonexistent'' = None \<and>
   computeCollapsedPositions [''nonexistent''] example_tree example_rendered = Some Map.empty"
proof -
  have r: "example_rendered ''root'' = Some \<lparr>pos_x = 100, pos_y = 100\<rparr>"
      "example_rendered ''a'' = Some \<lparr>pos_x = 200, pos_y = 200\<rparr>"
      "example_rendered ''nonexistent'' = None"
      "example_rendered ''b'' = Some \<lparr>pos_x = 300, pos_y = 100\<rparr>"
    by (simp_all add: example_rendered_def)
  have e1: "(''a'', ''c'') \<in> (edges example_tree)\<^sup>+"
    by (rule r_into_trancl) (simp add: example_tree_edges)
  have e2: "(''root'', ''c'') \<in> (edges example_tree)\<^sup>+"
    by (rule trancl_into_trancl2 [OF _ e1]) (simp add: example_tree_edges)
  have e3: "(''b'', ''c'') \<notin> (edges example_tree)\<^sup>+"
  proof
    assume "(''b'', ''c'') \<in> (edges example_tree)\<^sup>+"
    then obtain z where "(''b'', z) \<in> edges example_tree" by (blast dest: tranclD)
    then show False by (simp add: example_tree_edges)
  qed
  have later: "\<forall>c'\<in>set [''b'']. example_rendered c' \<noteq> None \<longrightarrow>
      (c', ''c'') \<notin> (edges example_tree)\<^sup>+"
    using e3 by simp
  note fa = example_tree_finite example_tree_acyclic
  have w1: "\<exists>ov. computeCollapsedPositions [''root'', ''a'', ''b''] example_tree example_rendered = Some ov \<and>
         ov ''c'' = Some \<lparr>pos_x = 200, pos_y = 200\<rparr>"
    using computeCollapsedPositions_later_anchor_wins
      [of example_tree example_rendered "''a''" "\<lparr>pos_x = 200, pos_y = 200\<rparr>" "''c''"
        "[''b'']" "[''root'']"]
      fa r e1 later by simp
  have w2: "\<exists>ov. computeCollapsedPositions [''a'', ''root''] example_tree example_rendered = Some ov \<and>
         ov ''c'' = Some \<lparr>pos_x = 100, pos_y = 100\<rparr>"
    using computeCollapsedPositions_later_anchor_wins
      [of example_tree example_rendered "''root''" "\<lparr>pos_x = 100, pos_y = 100\<rparr>" "''c''" "[]" "[''a'']"]
      fa r e2 by simp
  have w3: "computeCollapsedPositions [''nonexistent''] example_tree example_rendered = Some Map.empty"
    using computeCollapsedPositions_later_anchor_wins
      [of example_tree example_rendered "''nonexistent''" undefined undefined "[]" "[]"] r
    by (simp add: computeCollapsedPositions_def)
  show ?thesis using fa r e1 e2 e3 w1 w2 w3 by (intro conjI)
qed

section \<open>Properties of the handlers\<close>

subsection \<open>Zooming\<close>

lemma handleZoom_cases:
  "handleZoom st zf cx cy w h = (False, st, []) \<or>
   handleZoom st zf cx cy w h =
     (True,
      st\<lparr>panX := cx - w / 2 - (cx - w / 2 - panX st) / currentZoom st *
                   max (minZoomLimit st) (min (maxZoomLimit st) (currentZoom st * zf)),
          panY := cy - h / 2 - (cy - h / 2 - panY st) / currentZoom st *
                   max (minZoomLimit st) (min (maxZoomLimit st) (currentZoom st * zf)),
          currentZoom := max (minZoomLimit st) (min (maxZoomLimit st) (currentZoom st * zf))\<rparr>,
      [ScheduleRender])"
  by (simp add: handleZoom_def Let_def)

lemma handleZoom_applied:
  assumes "handleZoom st zf cx cy w h = (True, st', es)"
  shows "st' = st\<lparr>panX := cx - w / 2 - (cx - w / 2 - panX st) / currentZoom st *
                   max (minZoomLimit st) (min (maxZoomLimit st) (currentZoom st * zf)),
          panY := cy - h / 2 - (cy - h / 2 - panY st) / currentZoom st *
                   max (minZoomLimit st) (min (maxZoomLimit st) (currentZoom st * zf)),
          currentZoom := max (minZoomLimit st) (min (maxZoomLimit st) (currentZoom st * zf))\<rparr>"
    and "es = [ScheduleRender]"
  using assms handleZoom_cases [of st zf cx cy w h] by auto

lemma handleZoom_limits:
  "minZoomLimit (fst (snd (handleZoom st zf cx cy w h))) = minZoomLimit st \<and>
   maxZoomLimit (fst (snd (handleZoom st zf cx cy w h))) = maxZoomLimit st"
  using handleZoom_cases [of st zf cx cy w h] by auto

lemma zoom_step_same:
  "minZoomLimit st' = minZoomLimit st \<Longrightarrow> maxZoomLimit st' = maxZoomLimit st \<Longrightarrow>
   currentZoom st' = currentZoom st \<Longrightarrow> zoom_step w h st st'"
  by (simp add: zoom_step_def)

lemma zoom_step_handleZoom:
  assumes "handleZoom st zf cx cy w h = (applied, s, es)"
    and "minZoomLimit st' = minZoomLimit s" "maxZoomLimit st' = maxZoomLimit s"
    and "currentZoom st' = currentZoom s"
  shows "zoom_step w h st st'"
proof (cases applied)
  case True
  then have z: "handleZoom st zf cx cy w h = (True, s, es)" using assms(1) by simp
  have "minZoomLimit s = minZoomLimit st" "maxZoomLimit s = maxZoomLimit st"
    using handleZoom_limits [of st zf cx cy w h] z by simp_all
  then have "minZoomLimit st' = minZoomLimit st" "maxZoomLimit st' = maxZoomLimit st"
    using assms(2,3) by simp_all
  then show ?thesis
    unfolding zoom_step_def using z assms(4) by blast
next
  case False
  then have "s = st" using assms(1) handleZoom_cases [of st zf cx cy w h] by auto
  then show ?thesis using assms by (simp add: zoom_step_def)
qed

lemma handlePanning_zoom:
  "handlePanning st x y = (st', es) \<Longrightarrow>
   minZoomLimit st' = minZoomLimit st \<and> maxZoomLimit st' = maxZoomLimit st \<and>
   currentZoom st' = currentZoom st"
  by (auto simp: handlePanning_def Let_def split: if_splits)

lemma handleHoverDetection_zoom:
  "handleHoverDetection H st x y = (st', es) \<Longrightarrow>
   minZoomLimit st' = minZoomLimit st \<and> maxZoomLimit st' = maxZoomLimit st \<and>
   currentZoom st' = currentZoom st"
  by (auto simp: handleHoverDetection_def Let_def split: if_splits prod.splits)

lemma handleMouseMove_zoom:
  "handleMouseMove H w h st e = (c, st', es) \<Longrightarrow> zoom_step w h st st'"
  by (auto simp: handleMouseMove_def Let_def
      split: if_splits sum.splits prod.splits
      dest!: handlePanning_zoom handleHoverDetection_zoom intro!: zoom_step_same)

lemma handleMouseDown_zoom:
  "handleMouseDown st e = (c, st', es) \<Longrightarrow> zoom_step w h st st'"
  by (auto simp: handleMouseDown_def Let_def
      split: if_splits sum.splits prod.splits intro!: zoom_step_same)

lemma handleMouseUp_zoom:
  "handleMouseUp H st e = (c, st', es) \<Longrightarrow> zoom_step w h st st'"
  by (auto simp: handleMouseUp_def Let_def
      split: if_splits sum.splits prod.splits option.splits intro!: zoom_step_same)

lemma handleMouseLeave_zoom:
  "handleMouseLeave st = (c, st', es) \<Longrightarrow> zoom_step w h st st'"
  by (auto simp: handleMouseLeave_def Let_def split: if_splits intro!: zoom_step_same)

lemma handleWheel_zoom:
  assumes "handleWheel w h st e = (c, st', es)"
  shows "zoom_step w h st st'"
proof (cases "canvas st")
  case None
  then show ?thesis using assms by (auto simp: handleWheel_def intro!: zoom_step_same)
next
  case (Some r)
  let ?zf = "if deltaY e > 0 then 9 / 10 else 11 / 10 :: real"
  obtain applied s es' where
    z: "handleZoom st ?zf (clientX e - rect_left r) (clientY e - rect_top r) w h = (applied, s, es')"
    by (cases "handleZoom st ?zf (clientX e - rect_left r) (clientY e - rect_top r) w h") auto
  then have "st' = s"
    using assms Some by (simp add: handleWheel_def getEventCoordinates_def Let_def)
  then show ?thesis using zoom_step_handleZoom [OF z, of st'] by simp
qed

lemma handleTouchStart_zoom:
  "handleTouchStart H st e = (c, st', es) \<Longrightarrow> zoom_step w h st st'"
  by (auto simp: handleTouchStart_def Let_def
      split: if_splits sum.splits prod.splits list.splits
      dest!: handleHoverDetection_zoom intro!: zoom_step_same)

lemma pinch_zoom_zoom:
  assumes "pinch_zoom w h st t1 t2 = (c, st', es)"
  shows "zoom_step w h st st'"
proof (cases "canvas st")
  case None
  then show ?thesis
    using assms by (auto simp: pinch_zoom_def getEventCoordinates_def intro!: zoom_step_same)
next
  case (Some r)
  define p1 where "p1 = (clientX t1 - rect_left r, clientY t1 - rect_top r)"
  define p2 where "p2 = (clientX t2 - rect_left r, clientY t2 - rect_top r)"
  show ?thesis
  proof (cases "lastTouchDistance st > 0")
    case False
    then have "st' = st\<lparr>lastTouchDistance := touch_distance p1 p2\<rparr>"
      using assms Some
      by (simp add: pinch_zoom_def getEventCoordinates_def Let_def p1_def p2_def)
    then show ?thesis by (simp add: zoom_step_same)
  next
    case True
    let ?zf = "touch_distance p1 p2 / lastTouchDistance st"
    let ?cx = "(fst p1 + fst p2) / 2"
    let ?cy = "(snd p1 + snd p2) / 2"
    obtain applied s es' where z: "handleZoom st ?zf ?cx ?cy w h = (applied, s, es')"
      by (cases "handleZoom st ?zf ?cx ?cy w h") auto
    then have "st' = s\<lparr>lastTouchDistance := touch_distance p1 p2\<rparr>"
      using assms Some True
      by (simp add: pinch_zoom_def getEventCoordinates_def Let_def p1_def p2_def)
    then show ?thesis using zoom_step_handleZoom [OF z, of st'] by simp
  qed
qed

lemma handleTouchMove_zoom:
  "handleTouchMove w h st e = (c, st', es) \<Longrightarrow> zoom_step w h st st'"
  by (auto simp: handleTouchMove_def Let_def
      split: if_splits sum.splits prod.splits list.splits
      dest!: handlePanning_zoom pinch_zoom_zoom intro: zoom_step_same)

lemma handleTouchEnd_zoom:
  "handleTouchEnd H st e = (c, st', es) \<Longrightarrow> zoom_step w h st st'"
  by (auto simp: handleTouchEnd_def Let_def
      split: if_splits sum.splits prod.splits list.splits option.splits
      intro!: zoom_step_same)

lemma createMouseHandlers_zoom:
  "createMouseHandlers H w h st ev = (c, st', es) \<Longrightarrow> zoom_step w h st st'"
  by (cases ev)
    (auto dest: handleMouseMove_zoom handleMouseDown_zoom handleMouseUp_zoom
      handleMouseLeave_zoom handleWheel_zoom handleTouchStart_zoom handleTouchMove_zoom
      handleTouchEnd_zoom)

lemma zoom_step_bounds:
  assumes "zoom_step w h st st'"
    and "minZoomLimit st \<le> currentZoom st" "currentZoom st \<le> maxZoomLimit st"
  shows "minZoomLimit st' \<le> currentZoom st' \<and> currentZoom st' \<le> maxZoomLimit st'"
proof -
  have lim: "minZoomLimit st' = minZoomLimit st" "maxZoomLimit st' = maxZoomLimit st"
    using assms(1) by (simp_all add: zoom_step_def)
  consider "currentZoom st' = currentZoom st"
    | zf cx cy s es where "handleZoom st zf cx cy w h = (True, s, es)"
        "currentZoom st' = currentZoom s"
    using assms(1) unfolding zoom_step_def by blast
  then show ?thesis
  proof cases
    case 1
    then show ?thesis using assms(2,3) lim by simp
  next
    case 2
    have "currentZoom s = max (minZoomLimit st) (min (maxZoomLimit st) (currentZoom st * zf))"
      using handleZoom_applied(1) [OF 2(1)] by simp
    then show ?thesis using 2(2) lim assms(2,3) by simp
  qed
qed

lemma run_events_bounds:
  assumes "minZoomLimit st \<le> currentZoom st" "currentZoom st \<le> maxZoomLimit st"
  shows "minZoomLimit (fst (run_events H w h st evs)) = minZoomLimit st \<and>
         maxZoomLimit (fst (run_events H w h st evs)) = maxZoomLimit st \<and>
         minZoomLimit st \<le> currentZoom (fst (run_events H w h st evs)) \<and>
         currentZoom (fst (run_events H w h st evs)) \<le> maxZoomLimit st"
  using assms
proof (induction evs arbitrary: st)
  case Nil
  then show ?case by simp
next
  case (Cons ev evs)
  obtain c st1 es1 where step: "createMouseHandlers H w h st ev = (c, st1, es1)"
    by (cases "createMouseHandlers H w h st ev") auto
  have zs: "zoom_step w h st st1" using step by (rule createMouseHandlers_zoom)
  then have lim: "minZoomLimit st1 = minZoomLimit st" "maxZoomLimit st1 = maxZoomLimit st"
    by (simp_all add: zoom_step_def)
  have b: "minZoomLimit st1 \<le> currentZoom st1 \<and> currentZoom st1 \<le> maxZoomLimit st1"
    using zoom_step_bounds [OF zs Cons.prems] .
  have "fst (run_events H w h st (ev # evs)) = fst (run_events H w h st1 evs)"
    using step by (simp split: prod.splits)
  then show ?case using Cons.IH [of st1] b lim by simp
qed

lemma handleZoom_focal:
  assumes "handleZoom st zf cx cy w h = (True, st', es)"
  shows "focal_point_fixed cx cy w h st st'"
  using handleZoom_applied(1) [OF assms] by (simp add: focal_point_fixed_def)

lemma focal_point_fixed_update:
  "focal_point_fixed cx cy w h st st' \<Longrightarrow>
   focal_point_fixed cx cy w h st (st'\<lparr>lastTouchDistance := d\<rparr>)"
  by (simp add: focal_point_fixed_def)

lemma handleWheel_focal:
  assumes cv: "canvas st = Some r"
    and run: "handleWheel w h st e = (c, st', es)"
    and applied: "ScheduleRender \<in> set es"
  shows "focal_point_fixed (clientX e - rect_left r) (clientY e - rect_top r) w h st st'"
proof -
  let ?zf = "if deltaY e > 0 then 9 / 10 else 11 / 10 :: real"
  let ?cx = "clientX e - rect_left r"
  let ?cy = "clientY e - rect_top r"
  obtain a s es' where z: "handleZoom st ?zf ?cx ?cy w h = (a, s, es')"
    by (cases "handleZoom st ?zf ?cx ?cy w h") auto
  have res: "st' = s" "es = PreventDefault # es'"
    using run cv z by (simp_all add: handleWheel_def getEventCoordinates_def Let_def)
  have "a"
  proof (rule ccontr)
    assume "\<not> a"
    then have "es' = []" using z handleZoom_cases [of st ?zf ?cx ?cy w h] by auto
    then show False using applied res by simp
  qed
  then show ?thesis using handleZoom_focal [of st ?zf ?cx ?cy w h s es'] z res by simp
qed

lemma pinch_zoom_focal:
  assumes cv: "canvas st = Some r"
    and run: "pinch_zoom w h st t1 t2 = (c, st', es)"
    and applied: "ScheduleRender \<in> set es"
  shows "focal_point_fixed
           ((clientX t1 - rect_left r + (clientX t2 - rect_left r)) / 2)
           ((clientY t1 - rect_top r + (clientY t2 - rect_top r)) / 2) w h st st'"
proof -
  define p1 where "p1 = (clientX t1 - rect_left r, clientY t1 - rect_top r)"
  define p2 where "p2 = (clientX t2 - rect_left r, clientY t2 - rect_top r)"
  let ?zf = "touch_distance p1 p2 / lastTouchDistance st"
  let ?cx = "(fst p1 + fst p2) / 2"
  let ?cy = "(snd p1 + snd p2) / 2"
  have pos: "lastTouchDistance st > 0"
  proof (rule ccontr)
    assume "\<not> lastTouchDistance st > 0"
    then have "es = [PreventDefault]"
      using run cv by (simp add: pinch_zoom_def getEventCoordinates_def Let_def)
    then show False using applied by simp
  qed
  obtain a s es' where z: "handleZoom st ?zf ?cx ?cy w h = (a, s, es')"
    by (cases "handleZoom st ?zf ?cx ?cy w h") auto
  have res: "st' = s\<lparr>lastTouchDistance := touch_distance p1 p2\<rparr>" "es = PreventDefault # es'"
    using run cv z pos
    by (simp_all add: pinch_zoom_def getEventCoordinates_def Let_def p1_def p2_def)
  have "a"
  proof (rule ccontr)
    assume "\<not> a"
    then have "es' = []" using z handleZoom_cases [of st ?zf ?cx ?cy w h] by auto
    then show False using applied res by simp
  qed
  then have "focal_point_fixed ?cx ?cy w h st s"
    using handleZoom_focal [of st ?zf ?cx ?cy w h s es'] z by simp
  then show ?thesis
    unfolding res(1) by (simp add: focal_point_fixed_update p1_def p2_def)
qed

text \<open>
  Claim C1. Over the reals, whenever a zoom is applied to a nonzero zoom factor with focal
  point \<open>(cx, cy)\<close>, the new pan satisfies \<open>cx - W/2 - panX' = worldX * newZoom\<close> with
  \<open>worldX = (cx - W/2 - panX) / oldZoom\<close> (and the same for \<open>y\<close>), where \<open>newZoom\<close> is
  the clamped proposed zoom; if the new zoom is nonzero too, the world coordinate under the
  focal point is therefore the same before and after. This holds for \<open>handleZoom\<close>, for the
  wheel handler with the pointer position as focal point, and for the pinch branch of the
  touch-move handler with the midpoint of the two touches as focal point.
\<close>

theorem zoom_to_point:
  "(handleZoom st zf cx cy w h = (True, st', es) \<and> currentZoom st \<noteq> 0 \<longrightarrow>
      focal_point_fixed cx cy w h st st' \<and>
      currentZoom st' = max (minZoomLimit st) (min (maxZoomLimit st) (currentZoom st * zf)) \<and>
      (currentZoom st' \<noteq> 0 \<longrightarrow>
         (cx - w / 2 - panX st') / currentZoom st' = (cx - w / 2 - panX st) / currentZoom st \<and>
         (cy - h / 2 - panY st') / currentZoom st' = (cy - h / 2 - panY st) / currentZoom st)) \<and>
   (canvas st = Some r \<and> handleWheel w h st e = (c, st', es) \<and> ScheduleRender \<in> set es \<and>
    currentZoom st \<noteq> 0 \<longrightarrow>
      focal_point_fixed (clientX e - rect_left r) (clientY e - rect_top r) w h st st') \<and>
   (canvas st = Some r \<and> ev_touches te = [t1, t2] \<and>
    handleTouchMove w h st te = (c, st', es) \<and> ScheduleRender \<in> set es \<and>
    currentZoom st \<noteq> 0 \<longrightarrow>
      focal_point_fixed
        ((clientX t1 - rect_left r + (clientX t2 - rect_left r)) / 2)
        ((clientY t1 - rect_top r + (clientY t2 - rect_top r)) / 2) w h st st')"
proof (intro conjI impI)
  assume "handleZoom st zf cx cy w h = (True, st', es) \<and> currentZoom st \<noteq> 0"
  then have a: "handleZoom st zf cx cy w h = (True, st', es)" and nz: "currentZoom st \<noteq> 0"
    by simp_all
  show f: "focal_point_fixed cx cy w h st st'" using a by (rule handleZoom_focal)
  show "currentZoom st' = max (minZoomLimit st) (min (maxZoomLimit st) (currentZoom st * zf))"
    using handleZoom_applied(1) [OF a] by simp
  assume nz': "currentZoom st' \<noteq> 0"
  show "(cx - w / 2 - panX st') / currentZoom st' = (cx - w / 2 - panX st) / currentZoom st"
    using f nz nz' by (simp add: focal_point_fixed_def)
  show "(cy - h / 2 - panY st') / currentZoom st' = (cy - h / 2 - panY st) / currentZoom st"
    using f nz nz' by (simp add: focal_point_fixed_def)
next
  assume "canvas st = Some r \<and> handleWheel w h st e = (c, st', es) \<and>
    ScheduleRender \<in> set es \<and> currentZoom st \<noteq> 0"
  then show "focal_point_fixed (clientX e - rect_left r) (clientY e - rect_top r) w h st st'"
    using handleWheel_focal by blast
next
  assume a: "canvas st = Some r \<and> ev_touches te = [t1, t2] \<and>
    handleTouchMove w h st te = (c, st', es) \<and> ScheduleRender \<in> set es \<and>
    currentZoom st \<noteq> 0"
  then have tm: "ev_touches te = [t1, t2]" "handleTouchMove w h st te = (c, st', es)"
    "ScheduleRender \<in> set es" by simp_all
  have "zoomable st"
    using tm by (auto simp: handleTouchMove_def split: if_splits)
  then have "pinch_zoom w h st t1 t2 = (c, st', es)"
    using tm by (simp add: handleTouchMove_def)
  then show "focal_point_fixed
        ((clientX t1 - rect_left r + (clientX t2 - rect_left r)) / 2)
        ((clientY t1 - rect_top r + (clientY t2 - rect_top r)) / 2) w h st st'"
    using a pinch_zoom_focal by blast
qed

text \<open>
  Claim C4. A zoom whose proposed value exceeds the upper limit while the current zoom is
  already at or above it, or falls below the lower limit while the current zoom is already
  at or below it, returns \<open>false\<close>, leaves the whole state unchanged and calls
  nothing, in particular not \<open>scheduleRender\<close>.
\<close>

theorem handleZoom_rejected_at_limit:
  assumes "(currentZoom st * zoomFactor > maxZoomLimit st \<and> currentZoom st \<ge> maxZoomLimit st) \<or>
           (currentZoom st * zoomFactor < minZoomLimit st \<and> currentZoom st \<le> minZoomLimit st)"
  shows "handleZoom st zoomFactor centerX centerY width height = (False, st, [])"
  using assms by (auto simp: handleZoom_def Let_def)

text \<open>Zooming in at the upper limit 5.\<close>

theorem handleZoom_rejected_at_limit_witness:
  "currentZoom (example_state\<lparr>currentZoom := 5\<rparr>) * (11 / 10)
     > maxZoomLimit (example_state\<lparr>currentZoom := 5\<rparr>) \<and>
   currentZoom (example_state\<lparr>currentZoom := 5\<rparr>)
     \<ge> maxZoomLimit (example_state\<lparr>currentZoom := 5\<rparr>) \<and>
   handleZoom (example_state\<lparr>currentZoom := 5\<rparr>) (11 / 10) 400 300 800 600 =
     (False, example_state\<lparr>currentZoom := 5\<rparr>, [])"
proof -
  have h: "currentZoom (example_state\<lparr>currentZoom := 5\<rparr>) * (11 / 10)
             > maxZoomLimit (example_state\<lparr>currentZoom := 5\<rparr>) \<and>
           currentZoom (example_state\<lparr>currentZoom := 5\<rparr>)
             \<ge> maxZoomLimit (example_state\<lparr>currentZoom := 5\<rparr>)"
    by (simp add: example_state_def)
  then show ?thesis
    using handleZoom_rejected_at_limit
      [of "example_state\<lparr>currentZoom := 5\<rparr>" "11 / 10" 400 300 800 600]
    by blast
qed

lemma touch_distance_horizontal: "touch_distance (a, y) (b, y) = \<bar>b - a\<bar>"
  by (simp add: touch_distance_def)

text \<open>
  Zooming in by a wheel step and by a pinch around the canvas point \<open>(500, 400)\<close>, which
  shows the world point \<open>(100, 100)\<close> before and after.
\<close>

theorem zoom_to_point_witness:
  "handleZoom example_state (11 / 10) 500 400 800 600 =
     (True, example_state\<lparr>panX := - 10, panY := - 10, currentZoom := 11 / 10\<rparr>,
      [ScheduleRender]) \<and>
   focal_point_fixed 500 400 800 600 example_state
     (example_state\<lparr>panX := - 10, panY := - 10, currentZoom := 11 / 10\<rparr>) \<and>
   (500 - 800 / 2 - (- 10)) / (11 / 10) = (500 - 800 / 2 - 0) / (1 :: real) \<and>
   canvas example_state = Some \<lparr>rect_left = 0, rect_top = 0\<rparr> \<and>
   currentZoom example_state \<noteq> 0 \<and>
   handleWheel 800 600 example_state (wheel_at 500 400 (- 1)) =
     (Returned, example_state\<lparr>panX := - 10, panY := - 10, currentZoom := 11 / 10\<rparr>,
      [PreventDefault, ScheduleRender]) \<and>
   handleTouchMove 800 600 (example_state\<lparr>lastTouchDistance := 100\<rparr>) (pinch_at 440 560 400) =
     (Returned,
      example_state\<lparr>panX := - 20, panY := - 20, currentZoom := 6 / 5, lastTouchDistance := 120\<rparr>,
      [PreventDefault, ScheduleRender]) \<and>
   focal_point_fixed 500 400 800 600 (example_state\<lparr>lastTouchDistance := 100\<rparr>)
     (example_state\<lparr>panX := - 20, panY := - 20, currentZoom := 6 / 5, lastTouchDistance := 120\<rparr>)"
proof -
  let ?s1 = "example_state\<lparr>panX := - 10, panY := - 10, currentZoom := 11 / 10\<rparr>"
  let ?p0 = "example_state\<lparr>lastTouchDistance := 100\<rparr>"
  let ?p1 = "example_state\<lparr>panX := - 20, panY := - 20, currentZoom := 6 / 5,
    lastTouchDistance := 120\<rparr>"
  have z: "handleZoom example_state (11 / 10) 500 400 800 600 = (True, ?s1, [ScheduleRender])"
    by (simp add: handleZoom_def example_state_def Let_def)
  have cv: "canvas example_state = Some \<lparr>rect_left = 0, rect_top = 0\<rparr>"
    "canvas ?p0 = Some \<lparr>rect_left = 0, rect_top = 0\<rparr>"
    "currentZoom example_state \<noteq> 0" "currentZoom ?p0 \<noteq> 0"
    by (simp_all add: example_state_def)
  have wh: "handleWheel 800 600 example_state (wheel_at 500 400 (- 1)) =
      (Returned, ?s1, [PreventDefault, ScheduleRender])"
    by (simp add: handleWheel_def getEventCoordinates_def wheel_at_def handleZoom_def
        example_state_def Let_def)
  have pz: "handleTouchMove 800 600 ?p0 (pinch_at 440 560 400) =
      (Returned, ?p1, [PreventDefault, ScheduleRender])"
    by (simp add: handleTouchMove_def pinch_zoom_def pinch_at_def mouse_at_def
        getEventCoordinates_def touch_distance_horizontal handleZoom_def
        example_state_def Let_def)
  have tt: "ev_touches (pinch_at 440 560 400) = [mouse_at 440 400, mouse_at 560 400]"
    by (simp add: pinch_at_def)
  have f1: "focal_point_fixed 500 400 800 600 example_state ?s1"
    using zoom_to_point [of example_state "11 / 10" 500 400 800 600 ?s1 "[ScheduleRender]"] z cv
    by blast
  have f2: "focal_point_fixed 500 400 800 600 example_state ?s1"
    using zoom_to_point [of example_state _ _ _ 800 600 ?s1 "[PreventDefault, ScheduleRender]"
        "\<lparr>rect_left = 0, rect_top = 0\<rparr>" "wheel_at 500 400 (- 1)" Returned] cv wh
    by (simp add: wheel_at_def)
  have f3: "focal_point_fixed 500 400 800 600 ?p0 ?p1"
    using zoom_to_point [of ?p0 _ _ _ 800 600 ?p1 "[PreventDefault, ScheduleRender]"
        "\<lparr>rect_left = 0, rect_top = 0\<rparr>" _ Returned "pinch_at 440 560 400"
        "mouse_at 440 400" "mouse_at 560 400"] cv pz tt
    by (simp add: mouse_at_def)
  show ?thesis using z cv wh pz f1 f2 f3 by simp
qed

subsection \<open>The zoom stays within its limits\<close>

lemma createMouseHandlers_no_zoom:
  assumes "\<forall>e. ev \<noteq> Wheel e" "\<forall>e. ev \<noteq> TouchMove e"
    and "createMouseHandlers H w h st ev = (c, st', es)"
  shows "currentZoom st' = currentZoom st"
proof (cases ev)
  case (MouseMove e)
  then show ?thesis
    using assms(3)
    by (auto simp: handleMouseMove_def Let_def split: if_splits sum.splits prod.splits
        dest!: handlePanning_zoom handleHoverDetection_zoom)
next
  case (MouseDown e)
  then show ?thesis
    using assms(3)
    by (auto simp: handleMouseDown_def Let_def split: if_splits sum.splits prod.splits)
next
  case (MouseUp e)
  then show ?thesis
    using assms(3)
    by (auto simp: handleMouseUp_def Let_def
        split: if_splits sum.splits prod.splits option.splits)
next
  case MouseLeave
  then show ?thesis
    using assms(3) by (auto simp: handleMouseLeave_def Let_def split: if_splits)
next
  case (Wheel e)
  then show ?thesis using assms(1) by simp
next
  case (TouchStart e)
  then show ?thesis
    using assms(3)
    by (auto simp: handleTouchStart_def Let_def
        split: if_splits sum.splits prod.splits list.splits
        dest!: handleHoverDetection_zoom)
next
  case (TouchMove e)
  then show ?thesis using assms(2) by simp
next
  case (TouchEnd e)
  then show ?thesis
    using assms(3)
    by (auto simp: handleTouchEnd_def Let_def
        split: if_splits sum.splits prod.splits list.splits option.splits)
qed

text \<open>
  Claim C5. From a state whose zoom is within its limits, the zoom is within the (unchanged)
  limits after every sequence of events, whether or not a handler throws on the way. An
  applied zoom sets the zoom to the proposed value clamped into the limits; every handler
  call leaves the zoom as it is or sets it to that of an applied zoom; and handlers other
  than wheel and touch-move never change it.
\<close>

theorem currentZoom_within_limits:
  "(minZoomLimit st \<le> currentZoom st \<and> currentZoom st \<le> maxZoomLimit st \<longrightarrow>
      minZoomLimit (fst (run_events H w h st evs)) = minZoomLimit st \<and>
      maxZoomLimit (fst (run_events H w h st evs)) = maxZoomLimit st \<and>
      minZoomLimit st \<le> currentZoom (fst (run_events H w h st evs)) \<and>
      currentZoom (fst (run_events H w h st evs)) \<le> maxZoomLimit st) \<and>
   (handleZoom st zf cx cy w h = (True, s, es) \<longrightarrow>
      currentZoom s = max (minZoomLimit st) (min (maxZoomLimit st) (currentZoom st * zf))) \<and>
   (createMouseHandlers H w h st ev = (c, st', es') \<longrightarrow>
      currentZoom st' = currentZoom st \<or>
      (\<exists>zf cx cy s es. handleZoom st zf cx cy w h = (True, s, es) \<and>
         currentZoom st' = currentZoom s)) \<and>
   ((\<forall>e. ev \<noteq> Wheel e) \<and> (\<forall>e. ev \<noteq> TouchMove e) \<and>
    createMouseHandlers H w h st ev = (c, st', es') \<longrightarrow> currentZoom st' = currentZoom st)"
proof (intro conjI impI)
  assume "minZoomLimit st \<le> currentZoom st \<and> currentZoom st \<le> maxZoomLimit st"
  then have b: "minZoomLimit st \<le> currentZoom st" "currentZoom st \<le> maxZoomLimit st"
    by simp_all
  note r = run_events_bounds [OF b, of H w h evs]
  show "minZoomLimit (fst (run_events H w h st evs)) = minZoomLimit st" using r by simp
  show "maxZoomLimit (fst (run_events H w h st evs)) = maxZoomLimit st" using r by simp
  show "minZoomLimit st \<le> currentZoom (fst (run_events H w h st evs))" using r by simp
  show "currentZoom (fst (run_events H w h st evs)) \<le> maxZoomLimit st" using r by simp
next
  assume "handleZoom st zf cx cy w h = (True, s, es)"
  from handleZoom_applied(1) [OF this]
  show "currentZoom s = max (minZoomLimit st) (min (maxZoomLimit st) (currentZoom st * zf))"
    by simp
next
  assume "createMouseHandlers H w h st ev = (c, st', es')"
  then have "zoom_step w h st st'" by (rule createMouseHandlers_zoom)
  then show "currentZoom st' = currentZoom st \<or>
      (\<exists>zf cx cy s es. handleZoom st zf cx cy w h = (True, s, es) \<and>
         currentZoom st' = currentZoom s)"
    by (simp add: zoom_step_def)
next
  assume "(\<forall>e. ev \<noteq> Wheel e) \<and> (\<forall>e. ev \<noteq> TouchMove e) \<and>
    createMouseHandlers H w h st ev = (c, st', es')"
  then show "currentZoom st' = currentZoom st"
    using createMouseHandlers_no_zoom [of ev H w h st c st' es'] by blast
qed

text \<open>The example run evaluated.\<close>

lemma example_run:
  "currentZoom (fst (run_events spec_hit_tests 800 600
      (example_state\<lparr>currentZoom := 24 / 5\<rparr>) example_events)) = 5"
  by (simp add: example_events_def example_state_def mouse_at_def wheel_at_def
      handleMouseDown_def handleMouseMove_def handleMouseUp_def handleWheel_def
      handlePanning_def handleZoom_def getEventCoordinates_def click_detection_def Let_def)

text \<open>
  A drag with two wheel steps from zoom 4.8: the first is clamped to the limit 5, the
  second is rejected.
\<close>

theorem currentZoom_within_limits_witness:
  "minZoomLimit (example_state\<lparr>currentZoom := 24 / 5\<rparr>)
     \<le> currentZoom (example_state\<lparr>currentZoom := 24 / 5\<rparr>) \<and>
   currentZoom (example_state\<lparr>currentZoom := 24 / 5\<rparr>)
     \<le> maxZoomLimit (example_state\<lparr>currentZoom := 24 / 5\<rparr>) \<and>
   currentZoom (fst (run_events spec_hit_tests 800 600
      (example_state\<lparr>currentZoom := 24 / 5\<rparr>) example_events)) = 5 \<and>
   maxZoomLimit (fst (run_events spec_hit_tests 800 600
      (example_state\<lparr>currentZoom := 24 / 5\<rparr>) example_events)) = 5 \<and>
   minZoomLimit (fst (run_events spec_hit_tests 800 600
      (example_state\<lparr>currentZoom := 24 / 5\<rparr>) example_events)) = 1 / 2 \<and>
   handleZoom (example_state\<lparr>currentZoom := 24 / 5\<rparr>) (11 / 10) 400 300 800 600 =
     (True, example_state\<lparr>currentZoom := 5\<rparr>, [ScheduleRender]) \<and>
   currentZoom (example_state\<lparr>currentZoom := 5\<rparr>) =
     max (minZoomLimit (example_state\<lparr>currentZoom := 24 / 5\<rparr>))
       (min (maxZoomLimit (example_state\<lparr>currentZoom := 24 / 5\<rparr>))
          (currentZoom (example_state\<lparr>currentZoom := 24 / 5\<rparr>) * (11 / 10))) \<and>
   createMouseHandlers spec_hit_tests 800 600 (example_state\<lparr>currentZoom := 24 / 5\<rparr>)
       (MouseDown (mouse_at 110 100)) =
     (Returned, example_near_leaf\<lparr>currentZoom := 24 / 5\<rparr>, [PreventDefault]) \<and>
   currentZoom (example_near_leaf\<lparr>currentZoom := 24 / 5\<rparr>) =
     currentZoom (example_state\<lparr>currentZoom := 24 / 5\<rparr>)"
proof -
  let ?s = "example_state\<lparr>currentZoom := 24 / 5\<rparr>"
  have h: "minZoomLimit ?s \<le> currentZoom ?s \<and> currentZoom ?s \<le> maxZoomLimit ?s"
    by (simp add: example_state_def)
  have lim: "minZoomLimit ?s = 1 / 2" "maxZoomLimit ?s = 5"
    by (simp_all add: example_state_def)
  have z: "handleZoom ?s (11 / 10) 400 300 800 600 =
      (True, example_state\<lparr>currentZoom := 5\<rparr>, [ScheduleRender])"
    by (simp add: handleZoom_def example_state_def Let_def)
  have d: "createMouseHandlers spec_hit_tests 800 600 ?s (MouseDown (mouse_at 110 100)) =
      (Returned, example_near_leaf\<lparr>currentZoom := 24 / 5\<rparr>, [PreventDefault])"
    by (simp add: example_near_leaf_def handleMouseDown_def getEventCoordinates_def
        example_state_def mouse_at_def Let_def)
  note t = currentZoom_within_limits [of ?s spec_hit_tests 800 600 example_events
      "11 / 10" 400 300 "example_state\<lparr>currentZoom := 5\<rparr>" "[ScheduleRender]"
      "MouseDown (mouse_at 110 100)" Returned "example_near_leaf\<lparr>currentZoom := 24 / 5\<rparr>"
      "[PreventDefault]"]
  have r: "minZoomLimit (fst (run_events spec_hit_tests 800 600 ?s example_events)) = minZoomLimit ?s \<and>
        maxZoomLimit (fst (run_events spec_hit_tests 800 600 ?s example_events)) = maxZoomLimit ?s"
    using t h by blast
  have c: "currentZoom (example_state\<lparr>currentZoom := 5\<rparr>) =
      max (minZoomLimit ?s) (min (maxZoomLimit ?s) (currentZoom ?s * (11 / 10)))"
    using t z by blast
  have u: "currentZoom (example_near_leaf\<lparr>currentZoom := 24 / 5\<rparr>) = currentZoom ?s"
    using t d by blast
  show ?thesis using h r lim example_run z c d u by (intro conjI) simp_all
qed

subsection \<open>Taps and drags\<close>

lemma handlePanning_click_fields:
  "handlePanning st x y = (st', es) \<Longrightarrow> click_fields st' = click_fields st"
  by (auto simp: handlePanning_def click_fields_def Let_def split: if_splits)

lemma handleHoverDetection_click_fields:
  "handleHoverDetection H st x y = (st', es) \<Longrightarrow> click_fields st' = click_fields st"
  by (auto simp: handleHoverDetection_def click_fields_def Let_def
      split: if_splits prod.splits)

lemma handleZoom_click_fields:
  "handleZoom st zf cx cy w h = (a, st', es) \<Longrightarrow> click_fields st' = click_fields st"
  using handleZoom_cases [of st zf cx cy w h] by (auto simp: click_fields_def)

lemma handleMouseMove_click_fields:
  "handleMouseMove H w h st e = (c, st', es) \<Longrightarrow> click_fields st' = click_fields st"
  by (auto simp: handleMouseMove_def Let_def
      split: if_splits sum.splits prod.splits
      dest!: handlePanning_click_fields handleHoverDetection_click_fields)
     (auto simp: click_fields_def)

lemma pinch_zoom_click_fields:
  "pinch_zoom w h st t1 t2 = (c, st', es) \<Longrightarrow> click_fields st' = click_fields st"
  by (auto simp: pinch_zoom_def Let_def
      split: if_splits sum.splits prod.splits
      dest!: handleZoom_click_fields)
     (auto simp: click_fields_def)

lemma handleTouchMove_click_fields:
  "handleTouchMove w h st e = (c, st', es) \<Longrightarrow> click_fields st' = click_fields st"
  by (auto simp: handleTouchMove_def Let_def
      split: if_splits sum.splits prod.splits list.splits
      dest!: handlePanning_click_fields pinch_zoom_click_fields)

lemma run_mouse_moves_click_fields:
  "click_fields (fst (run_events H w h st (map MouseMove moves))) = click_fields st"
proof (induction moves arbitrary: st)
  case Nil
  show ?case by simp
next
  case (Cons m ms)
  obtain c st1 es1 where s: "handleMouseMove H w h st m = (c, st1, es1)"
    by (cases "handleMouseMove H w h st m") auto
  then have "fst (run_events H w h st (map MouseMove (m # ms))) =
      fst (run_events H w h st1 (map MouseMove ms))"
    by (simp split: prod.splits)
  then show ?case using Cons [of st1] handleMouseMove_click_fields [OF s] by simp
qed

lemma run_touch_moves_click_fields:
  "click_fields (fst (run_events H w h st (map TouchMove moves))) = click_fields st"
proof (induction moves arbitrary: st)
  case Nil
  show ?case by simp
next
  case (Cons m ms)
  obtain c st1 es1 where s: "handleTouchMove w h st m = (c, st1, es1)"
    by (cases "handleTouchMove w h st m") auto
  then have "fst (run_events H w h st (map TouchMove (m # ms))) =
      fst (run_events H w h st1 (map TouchMove ms))"
    by (simp split: prod.splits)
  then show ?case using Cons [of st1] handleTouchMove_click_fields [OF s] by simp
qed

lemma click_detection_cases:
  "click_detection H st (x1, y1) x0 (Some y0) =
     (if (x1 - x0) ^ 2 + (y1 - y0) ^ 2 < 25 then
        (case findHoveredNode H (x1 - panX st) (y1 - panY st) (renderedNodes st) of
           None \<Rightarrow> [FindHoveredNode (x1 - panX st) (y1 - panY st)]
         | Some n \<Rightarrow> [FindHoveredNode (x1 - panX st) (y1 - panY st), OnNodeClick n])
      else [])"
  by (simp add: click_detection_def Let_def power2_eq_square)

lemma mouse_down_then_moves:
  assumes "canvas st = Some r"
  shows "click_fields (fst (run_events H w h st (MouseDown down # map MouseMove moves))) =
     (canvas st, onNodeClick st, renderedNodes st,
      Some (clientX down - rect_left r), Some (clientY down - rect_top r),
      touchStartX st, touchStartY st)"
proof -
  obtain c st1 es1 where d: "handleMouseDown st down = (c, st1, es1)"
    by (cases "handleMouseDown st down") auto
  have f: "click_fields st1 = (canvas st, onNodeClick st, renderedNodes st,
      Some (clientX down - rect_left r), Some (clientY down - rect_top r),
      touchStartX st, touchStartY st)"
    using d assms
    by (auto simp: handleMouseDown_def getEventCoordinates_def click_fields_def Let_def
        split: if_splits)
  have "fst (run_events H w h st (MouseDown down # map MouseMove moves)) =
      fst (run_events H w h st1 (map MouseMove moves))"
    using d by (simp split: prod.splits)
  then show ?thesis using run_mouse_moves_click_fields [of H w h st1 moves] f by simp
qed

lemma touch_start_then_moves:
  assumes "canvas st = Some r"
  shows "click_fields (fst (run_events H w h st
           (TouchStart (touch_with [down]) # map TouchMove moves))) =
     (canvas st, onNodeClick st, renderedNodes st, mouseDownX st, mouseDownY st,
      Some (clientX down - rect_left r), Some (clientY down - rect_top r))"
proof -
  obtain c st1 es1 where d: "handleTouchStart H st (touch_with [down]) = (c, st1, es1)"
    by (cases "handleTouchStart H st (touch_with [down])") auto
  have f: "click_fields st1 = (canvas st, onNodeClick st, renderedNodes st,
      mouseDownX st, mouseDownY st,
      Some (clientX down - rect_left r), Some (clientY down - rect_top r))"
    using d assms
    by (auto simp: handleTouchStart_def touch_with_def getEventCoordinates_def Let_def
        split: prod.splits dest!: handleHoverDetection_click_fields)
       (auto simp: click_fields_def)
  have "fst (run_events H w h st (TouchStart (touch_with [down]) # map TouchMove moves)) =
      fst (run_events H w h st1 (map TouchMove moves))"
    using d by (simp split: prod.splits)
  then show ?thesis using run_touch_moves_click_fields [of H w h st1 moves] f by simp
qed

lemma handleMouseUp_click:
  assumes "click_fields st = (Some r, True, nodes, Some x0, Some y0, tx, ty)"
  shows "handleMouseUp H st up =
     (Returned, st\<lparr>isDragging := False\<rparr>,
      click_detection H (st\<lparr>isDragging := False\<rparr>)
        (clientX up - rect_left r, clientY up - rect_top r) x0 (Some y0))"
  using assms
  by (simp add: handleMouseUp_def click_fields_def getEventCoordinates_def Let_def)

lemma handleTouchEnd_click:
  assumes "click_fields st = (Some r, True, nodes, mx, my, Some x0, Some y0)"
  shows "handleTouchEnd H st (touch_lifted up) =
     (Returned, st\<lparr>touches := [], isDragging := False, lastTouchDistance := 0\<rparr>,
      PreventDefault #
        click_detection H (st\<lparr>touches := [], isDragging := False, lastTouchDistance := 0\<rparr>)
          (clientX up - rect_left r, clientY up - rect_top r) x0 (Some y0))"
  using assms
  by (simp add: handleTouchEnd_def touch_lifted_def click_fields_def
      getEventCoordinates_def Let_def)

lemma mouse_press_click_fields:
  assumes "canvas st = Some r" "onNodeClick st"
  shows "click_fields (mouse_press H w h st down moves) =
     (Some r, True, renderedNodes st,
      Some (clientX down - rect_left r), Some (clientY down - rect_top r),
      touchStartX st, touchStartY st)"
  using mouse_down_then_moves [OF assms(1), of H w h down moves] assms
  by (simp add: mouse_press_def)

lemma touch_press_click_fields:
  assumes "canvas st = Some r" "onNodeClick st"
  shows "click_fields (touch_press H w h st down moves) =
     (Some r, True, renderedNodes st, mouseDownX st, mouseDownY st,
      Some (clientX down - rect_left r), Some (clientY down - rect_top r))"
  using touch_start_then_moves [OF assms(1), of H w h down moves] assms
  by (simp add: touch_press_def)

text \<open>
  Claim C3. With a canvas and a registered click callback, let a pointer go down at
  \<open>(x0, y0)\<close>, move in any way, and go up at \<open>(x1, y1)\<close> (canvas coordinates). If
  \<open>(x1-x0)\<^sup>2 + (y1-y0)\<^sup>2 < 25\<close> and the exact hit test of the up coordinate minus the pan
  finds a node, the handler calls the hit test and then the click callback with that node
  id; if the hit test finds nothing, only the hit test is called; if the squared
  displacement is \<open>25\<close> or more, nothing is called. The same holds for a one-finger touch
  start, touch moves and the touch end that lifts the finger.
\<close>

theorem tap_versus_drag:
  assumes "canvas st = Some r" and "onNodeClick st"
    and "x0 = clientX down - rect_left r" and "y0 = clientY down - rect_top r"
    and "x1 = clientX up - rect_left r" and "y1 = clientY up - rect_top r"
    and "m = mouse_press H w h st down moves"
    and "t = touch_press H w h st down tmoves"
    and "t' = t\<lparr>touches := [], isDragging := False, lastTouchDistance := 0\<rparr>"
  shows
    "((x1 - x0) ^ 2 + (y1 - y0) ^ 2 < 25 \<and>
      findHoveredNode H (x1 - panX m) (y1 - panY m) (renderedNodes m) = Some n \<longrightarrow>
        handleMouseUp H m up =
          (Returned, m\<lparr>isDragging := False\<rparr>,
           [FindHoveredNode (x1 - panX m) (y1 - panY m), OnNodeClick n])) \<and>
     ((x1 - x0) ^ 2 + (y1 - y0) ^ 2 < 25 \<and>
      findHoveredNode H (x1 - panX m) (y1 - panY m) (renderedNodes m) = None \<longrightarrow>
        handleMouseUp H m up =
          (Returned, m\<lparr>isDragging := False\<rparr>,
           [FindHoveredNode (x1 - panX m) (y1 - panY m)])) \<and>
     ((x1 - x0) ^ 2 + (y1 - y0) ^ 2 \<ge> 25 \<longrightarrow>
        handleMouseUp H m up = (Returned, m\<lparr>isDragging := False\<rparr>, [])) \<and>
     ((x1 - x0) ^ 2 + (y1 - y0) ^ 2 < 25 \<and>
      findHoveredNode H (x1 - panX t) (y1 - panY t) (renderedNodes t) = Some n \<longrightarrow>
        handleTouchEnd H t (touch_lifted up) =
          (Returned, t',
           [PreventDefault, FindHoveredNode (x1 - panX t) (y1 - panY t), OnNodeClick n])) \<and>
     ((x1 - x0) ^ 2 + (y1 - y0) ^ 2 < 25 \<and>
      findHoveredNode H (x1 - panX t) (y1 - panY t) (renderedNodes t) = None \<longrightarrow>
        handleTouchEnd H t (touch_lifted up) =
          (Returned, t', [PreventDefault, FindHoveredNode (x1 - panX t) (y1 - panY t)])) \<and>
     ((x1 - x0) ^ 2 + (y1 - y0) ^ 2 \<ge> 25 \<longrightarrow>
        handleTouchEnd H t (touch_lifted up) = (Returned, t', [PreventDefault]))"
proof -
  have mf: "click_fields m = (Some r, True, renderedNodes st, Some x0, Some y0,
      touchStartX st, touchStartY st)"
    using mouse_press_click_fields [OF assms(1,2), of H w h down moves] assms(3,4,7) by simp
  have tf: "click_fields t = (Some r, True, renderedNodes st, mouseDownX st, mouseDownY st,
      Some x0, Some y0)"
    using touch_press_click_fields [OF assms(1,2), of H w h down tmoves] assms(3,4,8) by simp
  have mu: "handleMouseUp H m up =
      (Returned, m\<lparr>isDragging := False\<rparr>,
       click_detection H (m\<lparr>isDragging := False\<rparr>) (x1, y1) x0 (Some y0))"
    using handleMouseUp_click [OF mf, of H up] assms(5,6) by simp
  have tu: "handleTouchEnd H t (touch_lifted up) =
      (Returned, t', PreventDefault # click_detection H t' (x1, y1) x0 (Some y0))"
    using handleTouchEnd_click [OF tf, of H up] assms(5,6,9) by simp
  have t': "panX t' = panX t" "panY t' = panY t" "renderedNodes t' = renderedNodes t"
    using assms(9) by simp_all
  show ?thesis
    unfolding mu tu click_detection_cases by (simp add: t')
qed

lemmas handler_defs =
  handleMouseDown_def handleMouseMove_def handleMouseUp_def handleMouseLeave_def
  handleWheel_def handleTouchStart_def handleTouchMove_def handleTouchEnd_def
  handlePanning_def handleZoom_def handleHoverDetection_def click_detection_def
  getEventCoordinates_def

lemmas example_defs =
  example_state_def mouse_at_def wheel_at_def touch_with_def touch_lifted_def
  spec_hit_tests_def findHoveredLeafByVoronoi_spec_def leaf_dist2_def

lemma example_mouse_press:
  "mouse_press spec_hit_tests 800 600 example_state (mouse_at 100 100) [mouse_at 102 101] =
     example_pressed"
  by (simp add: mouse_press_def example_pressed_def handler_defs example_defs Let_def)

lemma example_touch_press:
  "touch_press spec_hit_tests 800 600 example_state (mouse_at 100 100) [] = example_touched"
  by (simp add: touch_press_def example_touched_def handler_defs example_defs Let_def)

text \<open>
  A tap that ends 3 units from where it began clicks \<open>leafA\<close>; one that ends exactly 5
  units away (squared displacement 25) does not.
\<close>

theorem tap_versus_drag_witness:
  "canvas example_state = Some \<lparr>rect_left = 0, rect_top = 0\<rparr> \<and> onNodeClick example_state \<and>
   (103 - 100 :: real) ^ 2 + (100 - 100) ^ 2 < 25 \<and>
   findHoveredNode spec_hit_tests (103 - panX example_pressed) (100 - panY example_pressed)
     (renderedNodes example_pressed) = Some ''leafA'' \<and>
   handleMouseUp spec_hit_tests example_pressed (mouse_at 103 100) =
     (Returned, example_pressed\<lparr>isDragging := False\<rparr>,
      [FindHoveredNode 101 99, OnNodeClick ''leafA'']) \<and>
   (105 - 100 :: real) ^ 2 + (100 - 100) ^ 2 \<ge> 25 \<and>
   handleMouseUp spec_hit_tests example_pressed (mouse_at 105 100) =
     (Returned, example_pressed\<lparr>isDragging := False\<rparr>, []) \<and>
   handleTouchEnd spec_hit_tests example_touched (touch_lifted (mouse_at 103 100)) =
     (Returned,
      example_touched\<lparr>touches := [], isDragging := False, lastTouchDistance := 0\<rparr>,
      [PreventDefault, FindHoveredNode 103 100, OnNodeClick ''leafA'']) \<and>
   handleTouchEnd spec_hit_tests example_touched (touch_lifted (mouse_at 105 100)) =
     (Returned,
      example_touched\<lparr>touches := [], isDragging := False, lastTouchDistance := 0\<rparr>,
      [PreventDefault])"
proof -
  let ?r = "\<lparr>rect_left = 0, rect_top = 0\<rparr>"
  let ?t' = "example_touched\<lparr>touches := [], isDragging := False, lastTouchDistance := 0\<rparr>"
  have cv: "canvas example_state = Some ?r" and cb: "onNodeClick example_state"
    by (simp_all add: example_state_def)
  have pan: "panX example_pressed = 2" "panY example_pressed = 1"
    "panX example_touched = 0" "panY example_touched = 0"
    by (simp_all add: example_pressed_def example_touched_def example_state_def)
  have hit: "findHoveredNode spec_hit_tests 101 99 (renderedNodes example_pressed) = Some ''leafA''"
    "findHoveredNode spec_hit_tests 103 100 (renderedNodes example_touched) = Some ''leafA''"
    by (simp_all add: example_pressed_def example_touched_def example_defs)
  note near =
    tap_versus_drag [OF cv cb refl refl refl refl
      example_mouse_press [symmetric] example_touch_press [symmetric] refl,
      of "mouse_at 103 100" "''leafA''"]
  note far =
    tap_versus_drag [OF cv cb refl refl refl refl
      example_mouse_press [symmetric] example_touch_press [symmetric] refl,
      of "mouse_at 105 100" "''leafA''"]
  have n1: "handleMouseUp spec_hit_tests example_pressed (mouse_at 103 100) =
     (Returned, example_pressed\<lparr>isDragging := False\<rparr>,
      [FindHoveredNode 101 99, OnNodeClick ''leafA''])"
    using near hit by (simp add: mouse_at_def pan)
  have n2: "handleTouchEnd spec_hit_tests example_touched (touch_lifted (mouse_at 103 100)) =
     (Returned, ?t', [PreventDefault, FindHoveredNode 103 100, OnNodeClick ''leafA''])"
    using near hit by (simp add: mouse_at_def pan)
  have f1: "handleMouseUp spec_hit_tests example_pressed (mouse_at 105 100) =
     (Returned, example_pressed\<lparr>isDragging := False\<rparr>, [])"
    using far by (simp add: mouse_at_def)
  have f2: "handleTouchEnd spec_hit_tests example_touched (touch_lifted (mouse_at 105 100)) =
     (Returned, ?t', [PreventDefault])"
    using far by (simp add: mouse_at_def)
  show ?thesis using cv cb hit n1 n2 f1 f2 by (simp add: pan)
qed

subsection \<open>Clicks without a callback\<close>

lemma example_no_callback_reached:
  "handleMouseDown (example_state\<lparr>onNodeClick := False\<rparr>) (mouse_at 100 100) =
     (Returned, example_no_callback, [PreventDefault])"
  by (simp add: example_no_callback_def handler_defs example_defs Let_def)

lemma example_no_callback_touched:
  "touch_press spec_hit_tests 800 600 (example_state\<lparr>onNodeClick := False\<rparr>)
     (mouse_at 100 100) [] = example_touched_no_callback"
  by (simp add: touch_press_def example_touched_no_callback_def example_touched_def
      handler_defs example_defs Let_def)

text \<open>
  Claim C8 as stated fails: after a mouse down at \<open>(100, 100)\<close> without a click callback, a
  mouse up at \<open>(101, 101)\<close> is within the click threshold and over \<open>leafA\<close>, yet the handler
  calls nothing, in particular not the hit test.
\<close>

theorem click_without_callback_counterexample:
  "\<not> onNodeClick example_no_callback \<and>
   mouseDownX example_no_callback = Some 100 \<and> mouseDownY example_no_callback = Some 100 \<and>
   (101 - 100 :: real) * (101 - 100) + (101 - 100) * (101 - 100) < 25 \<and>
   findHoveredNode spec_hit_tests (101 - panX example_no_callback)
     (101 - panY example_no_callback) (renderedNodes example_no_callback) = Some ''leafA'' \<and>
   FindHoveredNode (101 - panX example_no_callback) (101 - panY example_no_callback)
     \<notin> set (snd (snd (handleMouseUp spec_hit_tests example_no_callback (mouse_at 101 101))))"
  by (simp add: example_no_callback_def handler_defs example_defs Let_def)

text \<open>
  Claim C8, amended. Without a registered click callback a mouse up returns having only
  cleared the dragging flag, and calls nothing. A touch end calls nothing but
  \<open>preventDefault\<close>, whatever touches remain; when it lifts the last finger it returns having
  only stored the empty touch list, cleared the dragging flag and reset the pinch distance.
  Neither the hit test nor the callback runs.
\<close>

theorem click_without_callback:
  assumes "\<not> onNodeClick st"
  shows "handleMouseUp H st e = (Returned, st\<lparr>isDragging := False\<rparr>, []) \<and>
         snd (snd (handleTouchEnd H st te)) = [PreventDefault] \<and>
         (ev_touches te = [] \<longrightarrow>
            handleTouchEnd H st te =
              (Returned, st\<lparr>touches := [], isDragging := False, lastTouchDistance := 0\<rparr>,
               [PreventDefault]))"
  using assms
  by (auto simp: handleMouseUp_def handleTouchEnd_def Let_def
      split: option.splits list.splits sum.splits prod.splits)

text \<open>
  The mouse up of the counterexample, and the touch end at \<open>(101, 101)\<close> after a touch start
  at \<open>(100, 100)\<close>: both reach the test for the callback. With the callback registered the
  same touch end runs the hit test and clicks \<open>leafA\<close>.
\<close>

theorem click_without_callback_witness:
  "\<not> onNodeClick example_no_callback \<and>
   mouseDownX example_no_callback = Some 100 \<and>
   handleMouseUp spec_hit_tests example_no_callback (mouse_at 101 101) =
     (Returned, example_no_callback\<lparr>isDragging := False\<rparr>, []) \<and>
   \<not> onNodeClick example_touched_no_callback \<and>
   touchStartX example_touched_no_callback = Some 100 \<and>
   ev_touches (touch_lifted (mouse_at 101 101)) = [] \<and>
   ev_changedTouches (touch_lifted (mouse_at 101 101)) = Some [mouse_at 101 101] \<and>
   handleTouchEnd spec_hit_tests example_touched_no_callback (touch_lifted (mouse_at 101 101)) =
     (Returned,
      example_touched_no_callback\<lparr>touches := [], isDragging := False, lastTouchDistance := 0\<rparr>,
      [PreventDefault]) \<and>
   snd (snd (handleTouchEnd spec_hit_tests example_touched_no_callback
     (touch_lifted (mouse_at 101 101)))) = [PreventDefault] \<and>
   snd (snd (handleTouchEnd spec_hit_tests example_touched (touch_lifted (mouse_at 101 101)))) =
     [PreventDefault, FindHoveredNode 101 101, OnNodeClick ''leafA'']"
proof -
  have m: "\<not> onNodeClick example_no_callback" "mouseDownX example_no_callback = Some 100"
    by (simp_all add: example_no_callback_def example_state_def)
  have t: "\<not> onNodeClick example_touched_no_callback"
    "touchStartX example_touched_no_callback = Some 100"
    by (simp_all add: example_touched_no_callback_def example_touched_def example_state_def)
  have l: "ev_touches (touch_lifted (mouse_at 101 101)) = []"
    "ev_changedTouches (touch_lifted (mouse_at 101 101)) = Some [mouse_at 101 101]"
    by (simp_all add: touch_lifted_def)
  have c: "snd (snd (handleTouchEnd spec_hit_tests example_touched
      (touch_lifted (mouse_at 101 101)))) =
      [PreventDefault, FindHoveredNode 101 101, OnNodeClick ''leafA'']"
    by (simp add: example_touched_def handler_defs example_defs Let_def)
  show ?thesis
    using m t l c
      click_without_callback [OF m(1), of spec_hit_tests "mouse_at 101 101"
        "touch_lifted (mouse_at 101 101)"]
      click_without_callback [OF t(1), of spec_hit_tests "mouse_at 101 101"
        "touch_lifted (mouse_at 101 101)"]
    by simp
qed

subsection \<open>Resolution order of the hit tests\<close>

lemma composite_resolution_cong:
  assumes "renderedNodes st' = renderedNodes st" "voronoiData st' = voronoiData st"
    "leafHoverTolerance st' = leafHoverTolerance st"
  shows "composite_resolution H st' px py = composite_resolution H st px py"
  using assms by (simp add: composite_resolution_def split: option.splits)

lemma handleHoverDetection_composite:
  assumes "renderedNodes st \<noteq> []"
  shows "hoveredNodeId (fst (handleHoverDetection H st x y)) =
           composite_resolution H st (x - panX st) (y - panY st)"
  using assms
  by (auto simp: handleHoverDetection_def composite_resolution_def Let_def
      split: option.splits prod.splits)

lemma handleHoverDetection_calls:
  assumes "renderedNodes st \<noteq> []"
  shows "snd (handleHoverDetection H st x y) =
     (if findHoveredNode H (x - panX st) (y - panY st) (renderedNodes st) = None \<and>
         voronoiData st \<noteq> None
      then [FindHoveredNode (x - panX st) (y - panY st),
            FindHoveredLeafByVoronoi (x - panX st) (y - panY st)
              (case leafHoverTolerance st of Some t \<Rightarrow> t | None \<Rightarrow> 15)]
      else [FindHoveredNode (x - panX st) (y - panY st)]) @
     (if composite_resolution H st (x - panX st) (y - panY st) \<noteq> hoveredNodeId st
      then [ScheduleRender] else [])"
  using assms
  by (auto simp: handleHoverDetection_def composite_resolution_def Let_def
      split: option.splits prod.splits)

lemma handleMouseMove_hover:
  assumes "canvas st = Some r" "\<not> isDragging st" "renderedNodes st \<noteq> []"
  shows "hoveredNodeId (fst (snd (handleMouseMove H w h st e))) =
     composite_resolution H st
       (clientX e - rect_left r - panX st) (clientY e - rect_top r - panY st)"
proof -
  let ?x = "clientX e - rect_left r" and ?y = "clientY e - rect_top r"
  let ?st2 = "st\<lparr>lastMouseX := ?x, lastMouseY := ?y\<rparr>"
  have "handleMouseMove H w h st e =
      (Returned, fst (handleHoverDetection H ?st2 ?x ?y), snd (handleHoverDetection H ?st2 ?x ?y))"
    using assms(1,2)
    by (simp add: handleMouseMove_def handlePanning_def getEventCoordinates_def Let_def
        split: prod.splits)
  moreover have "hoveredNodeId (fst (handleHoverDetection H ?st2 ?x ?y)) =
      composite_resolution H ?st2 (?x - panX ?st2) (?y - panY ?st2)"
    using assms(3) by (intro handleHoverDetection_composite) simp
  ultimately show ?thesis
    by (simp add: composite_resolution_cong [of ?st2 st])
qed

lemma click_detection_exact:
  "OnNodeClick n \<in> set (click_detection H st (x, y) x0 y0) \<Longrightarrow>
   findHoveredNode H (x - panX st) (y - panY st) (renderedNodes st) = Some n"
  by (auto simp: click_detection_def Let_def split: option.splits if_splits)

lemma click_detection_no_fallback:
  "FindHoveredLeafByVoronoi a b t \<notin> set (click_detection H st c x0 y0)"
  by (auto simp: click_detection_def Let_def split: option.splits if_splits)

lemma handleMouseUp_exact:
  assumes "OnNodeClick n \<in> set (snd (snd (handleMouseUp H st e)))"
  shows "\<exists>r. canvas st = Some r \<and>
     findHoveredNode H (clientX e - rect_left r - panX st) (clientY e - rect_top r - panY st)
       (renderedNodes st) = Some n"
  using assms
  by (auto simp: handleMouseUp_def getEventCoordinates_def Let_def
      split: option.splits if_splits dest!: click_detection_exact)

lemma handleMouseUp_no_fallback:
  "FindHoveredLeafByVoronoi a b t \<notin> set (snd (snd (handleMouseUp H st e)))"
  by (auto simp: handleMouseUp_def getEventCoordinates_def Let_def click_detection_no_fallback
      split: option.splits if_splits sum.splits)

lemma handleTouchEnd_exact:
  assumes "OnNodeClick n \<in> set (snd (snd (handleTouchEnd H st te)))"
  shows "\<exists>r t. canvas st = Some r \<and> ev_changedTouches te = Some [t] \<and>
     findHoveredNode H (clientX t - rect_left r - panX st) (clientY t - rect_top r - panY st)
       (renderedNodes st) = Some n"
  using assms
  by (auto simp: handleTouchEnd_def getEventCoordinates_def Let_def
      split: option.splits if_splits list.splits sum.splits dest!: click_detection_exact)

lemma handleTouchEnd_no_fallback:
  "FindHoveredLeafByVoronoi a b t \<notin> set (snd (snd (handleTouchEnd H st te)))"
  by (auto simp: handleTouchEnd_def getEventCoordinates_def Let_def click_detection_no_fallback
      split: option.splits if_splits list.splits sum.splits)

lemma example_near_leaf_reached:
  "handleMouseDown example_state (mouse_at 110 100) =
     (Returned, example_near_leaf, [PreventDefault])"
  by (simp add: example_near_leaf_def handler_defs example_defs Let_def)

text \<open>
  Claim C2 as stated fails for clicks: after a mouse down at \<open>(110, 100)\<close>, a mouse up at
  the same point is a click; the exact hit test finds nothing there, a proximity index
  exists and the composite order resolves the point to \<open>leafA\<close>, yet the handler calls the
  exact hit test only and does not click.
\<close>

theorem hit_test_resolution_counterexample:
  "onNodeClick example_near_leaf \<and> voronoiData example_near_leaf \<noteq> None \<and>
   findHoveredNode spec_hit_tests (110 - panX example_near_leaf) (100 - panY example_near_leaf)
     (renderedNodes example_near_leaf) = None \<and>
   composite_resolution spec_hit_tests example_near_leaf
     (110 - panX example_near_leaf) (100 - panY example_near_leaf) = Some ''leafA'' \<and>
   handleMouseUp spec_hit_tests example_near_leaf (mouse_at 110 100) =
     (Returned, example_near_leaf\<lparr>isDragging := False\<rparr>, [FindHoveredNode 110 100])"
  by (simp add: example_near_leaf_def composite_resolution_def
      handler_defs example_defs Let_def)

text \<open>
  Claim C2, amended. Hover resolution (on a pointer move that is not a drag, and wherever
  else the hover detection runs over a nonempty node list) resolves in the composite order:
  the exact hit test is called first, the proximity hit test is called exactly when the
  exact one returned null and a proximity index exists, and the hovered node is the
  composite result, so an exact hit is never overridden. Click and tap resolution on mouse
  up and touch end use the exact hit test only: a click is invoked only with the node the
  exact hit test returned, and the proximity hit test is never called.
\<close>

theorem hit_test_resolution:
  "(renderedNodes st \<noteq> [] \<longrightarrow>
      hoveredNodeId (fst (handleHoverDetection H st x y)) =
        composite_resolution H st (x - panX st) (y - panY st) \<and>
      take 1 (snd (handleHoverDetection H st x y)) =
        [FindHoveredNode (x - panX st) (y - panY st)] \<and>
      ((\<exists>a b t. FindHoveredLeafByVoronoi a b t \<in> set (snd (handleHoverDetection H st x y)))
         \<longleftrightarrow> findHoveredNode H (x - panX st) (y - panY st) (renderedNodes st) = None \<and>
             voronoiData st \<noteq> None)) \<and>
   (canvas st = Some r \<and> \<not> isDragging st \<and> renderedNodes st \<noteq> [] \<longrightarrow>
      hoveredNodeId (fst (snd (handleMouseMove H w h st e))) =
        composite_resolution H st
          (clientX e - rect_left r - panX st) (clientY e - rect_top r - panY st)) \<and>
   (findHoveredNode H px py (renderedNodes st) = Some n \<longrightarrow>
      composite_resolution H st px py = Some n) \<and>
   (OnNodeClick n \<in> set (snd (snd (handleMouseUp H st e))) \<longrightarrow>
      (\<exists>r. canvas st = Some r \<and>
         findHoveredNode H (clientX e - rect_left r - panX st)
           (clientY e - rect_top r - panY st) (renderedNodes st) = Some n)) \<and>
   (OnNodeClick n \<in> set (snd (snd (handleTouchEnd H st te))) \<longrightarrow>
      (\<exists>r t. canvas st = Some r \<and> ev_changedTouches te = Some [t] \<and>
         findHoveredNode H (clientX t - rect_left r - panX st)
           (clientY t - rect_top r - panY st) (renderedNodes st) = Some n)) \<and>
   FindHoveredLeafByVoronoi a b tol \<notin> set (snd (snd (handleMouseUp H st e))) \<and>
   FindHoveredLeafByVoronoi a b tol \<notin> set (snd (snd (handleTouchEnd H st te)))"
proof (intro conjI impI)
  assume ne: "renderedNodes st \<noteq> []"
  show "hoveredNodeId (fst (handleHoverDetection H st x y)) =
        composite_resolution H st (x - panX st) (y - panY st)"
    using ne by (rule handleHoverDetection_composite)
  show "take 1 (snd (handleHoverDetection H st x y)) =
        [FindHoveredNode (x - panX st) (y - panY st)]"
    by (simp add: handleHoverDetection_calls [OF ne])
  show "(\<exists>a b t. FindHoveredLeafByVoronoi a b t \<in> set (snd (handleHoverDetection H st x y)))
         \<longleftrightarrow> findHoveredNode H (x - panX st) (y - panY st) (renderedNodes st) = None \<and>
             voronoiData st \<noteq> None"
    by (auto simp: handleHoverDetection_calls [OF ne] split: if_splits)
next
  assume "canvas st = Some r \<and> \<not> isDragging st \<and> renderedNodes st \<noteq> []"
  then show "hoveredNodeId (fst (snd (handleMouseMove H w h st e))) =
        composite_resolution H st
          (clientX e - rect_left r - panX st) (clientY e - rect_top r - panY st)"
    using handleMouseMove_hover [of st r H w h e] by blast
next
  assume "findHoveredNode H px py (renderedNodes st) = Some n"
  then show "composite_resolution H st px py = Some n"
    by (simp add: composite_resolution_def)
next
  assume "OnNodeClick n \<in> set (snd (snd (handleMouseUp H st e)))"
  then show "\<exists>r. canvas st = Some r \<and>
         findHoveredNode H (clientX e - rect_left r - panX st)
           (clientY e - rect_top r - panY st) (renderedNodes st) = Some n"
    by (rule handleMouseUp_exact)
next
  assume "OnNodeClick n \<in> set (snd (snd (handleTouchEnd H st te)))"
  then show "\<exists>r t. canvas st = Some r \<and> ev_changedTouches te = Some [t] \<and>
         findHoveredNode H (clientX t - rect_left r - panX st)
           (clientY t - rect_top r - panY st) (renderedNodes st) = Some n"
    by (rule handleTouchEnd_exact)
next
  show "FindHoveredLeafByVoronoi a b tol \<notin> set (snd (snd (handleMouseUp H st e)))"
    by (rule handleMouseUp_no_fallback)
  show "FindHoveredLeafByVoronoi a b tol \<notin> set (snd (snd (handleTouchEnd H st te)))"
    by (rule handleTouchEnd_no_fallback)
qed

text \<open>
  Hovering the point \<open>(110, 100)\<close> of the counterexample resolves to \<open>leafA\<close> through the
  proximity fallback; the click of the tap example resolves through the exact hit test.
\<close>

theorem hit_test_resolution_witness:
  "renderedNodes example_state \<noteq> [] \<and>
   canvas example_state = Some \<lparr>rect_left = 0, rect_top = 0\<rparr> \<and> \<not> isDragging example_state \<and>
   composite_resolution spec_hit_tests example_state 110 100 = Some ''leafA'' \<and>
   hoveredNodeId (fst (handleHoverDetection spec_hit_tests example_state 110 100)) =
     Some ''leafA'' \<and>
   hoveredNodeId (fst (snd (handleMouseMove spec_hit_tests 800 600 example_state
     (mouse_at 110 100)))) = Some ''leafA'' \<and>
   findHoveredNode spec_hit_tests 101 99 (renderedNodes example_pressed) = Some ''leafA'' \<and>
   composite_resolution spec_hit_tests example_pressed 101 99 = Some ''leafA'' \<and>
   OnNodeClick ''leafA'' \<in>
     set (snd (snd (handleMouseUp spec_hit_tests example_pressed (mouse_at 103 100)))) \<and>
   OnNodeClick ''leafA'' \<in>
     set (snd (snd (handleTouchEnd spec_hit_tests example_touched
       (touch_lifted (mouse_at 103 100))))) \<and>
   (\<exists>r. canvas example_pressed = Some r \<and>
      findHoveredNode spec_hit_tests (clientX (mouse_at 103 100) - rect_left r - panX example_pressed)
        (clientY (mouse_at 103 100) - rect_top r - panY example_pressed)
        (renderedNodes example_pressed) = Some ''leafA'')"
proof -
  let ?r = "\<lparr>rect_left = 0, rect_top = 0\<rparr>"
  have h: "renderedNodes example_state \<noteq> []" "canvas example_state = Some ?r"
    "\<not> isDragging example_state" "panX example_state = 0" "panY example_state = 0"
    by (simp_all add: example_state_def)
  have c: "composite_resolution spec_hit_tests example_state 110 100 = Some ''leafA''"
    by (simp add: composite_resolution_def example_defs)
  have e: "findHoveredNode spec_hit_tests 101 99 (renderedNodes example_pressed) = Some ''leafA''"
    by (simp add: example_pressed_def example_defs)
  have up: "OnNodeClick ''leafA'' \<in>
     set (snd (snd (handleMouseUp spec_hit_tests example_pressed (mouse_at 103 100))))"
    by (simp add: example_pressed_def handler_defs example_defs Let_def)
  have te: "OnNodeClick ''leafA'' \<in>
     set (snd (snd (handleTouchEnd spec_hit_tests example_touched
       (touch_lifted (mouse_at 103 100)))))"
    by (simp add: example_touched_def handler_defs example_defs Let_def)
  note t1 = hit_test_resolution [of example_state spec_hit_tests 110 100 ?r 800 600
      "mouse_at 110 100"]
  note t2 = hit_test_resolution [of example_pressed spec_hit_tests _ _ _ _ _
      "mouse_at 103 100" 101 99 "''leafA''"]
  have w1: "hoveredNodeId (fst (handleHoverDetection spec_hit_tests example_state 110 100)) =
     Some ''leafA''"
    using t1 h c by simp
  have w2: "hoveredNodeId (fst (snd (handleMouseMove spec_hit_tests 800 600 example_state
     (mouse_at 110 100)))) = Some ''leafA''"
    using t1 h c by (simp add: mouse_at_def)
  have w3: "composite_resolution spec_hit_tests example_pressed 101 99 = Some ''leafA''"
    using t2 e by blast
  have w4: "\<exists>r. canvas example_pressed = Some r \<and>
      findHoveredNode spec_hit_tests (clientX (mouse_at 103 100) - rect_left r - panX example_pressed)
        (clientY (mouse_at 103 100) - rect_top r - panY example_pressed)
        (renderedNodes example_pressed) = Some ''leafA''"
    using t2 up by blast
  show ?thesis using h c e up te w1 w2 w3 w4 by (intro conjI)
qed

subsection \<open>A missing canvas\<close>

text \<open>
  Claim C7 on the code. The mouse-move and wheel handlers return at once without a canvas
  and the mouse-up handler skips the click detection, but the mouse-down handler and the
  touch handlers read the canvas rectangle unguarded: without a canvas they throw a
  \<open>TypeError\<close>.
\<close>

theorem missing_canvas_throws:
  "canvas example_no_canvas = None \<and>
   handleMouseMove spec_hit_tests 800 600 example_no_canvas (mouse_at 10 10) =
     (Returned, example_no_canvas, []) \<and>
   handleWheel 800 600 example_no_canvas (wheel_at 10 10 1) =
     (Returned, example_no_canvas, []) \<and>
   handleMouseDown example_no_canvas (mouse_at 10 10) =
     (Threw TypeError, example_no_canvas, []) \<and>
   handleTouchStart spec_hit_tests example_no_canvas (touch_with [mouse_at 10 10]) =
     (Threw TypeError, example_no_canvas\<lparr>touches := [mouse_at 10 10]\<rparr>, [PreventDefault])"
  by (simp add: example_no_canvas_def handler_defs example_defs Let_def)

end
